theory Spec2Isabelle
  imports Complex_Main "HOL-Library.AList" "HOL-Library.Stream"
begin

section \<open>Python values and errors\<close>

text \<open>
  The two source files are \<^verbatim>\<open>train_tic_tac_toe.py\<close> (self-play Q-learning) and
  \<^verbatim>\<open>tic_tac_toe_pygame.py\<close> (the interactive player). Modelling conventions:
  \<^item> a Python \<^verbatim>\<open>str\<close> is a \<^typ>\<open>string\<close>; a one-character string obtained by indexing or
    by \<^verbatim>\<open>list(s)\<close> is the singleton list of that character;
  \<^item> a Python \<^verbatim>\<open>int\<close> is an \<^typ>\<open>int\<close>; list positions produced by \<^verbatim>\<open>enumerate\<close> are
    naturals, converted with \<^term>\<open>int\<close> where they become actions;
  \<^item> a Python \<^verbatim>\<open>float\<close> is a \<^typ>\<open>real\<close>: rounding, infinities and NaN are not modelled;
  \<^item> a Python \<^verbatim>\<open>dict\<close> is an association list in insertion order, read with
    \<^const>\<open>map_of\<close> and written with \<^const>\<open>AList.update\<close> (an existing key keeps its place, a
    new key goes last, as in Python);
  \<^item> an exception is the \<open>Inl\<close> branch of a sum.
\<close>

datatype error = IndexError | KeyError | ValueError | AttributeError | JSONDecodeError
  | OutsideModel \<comment> \<open>not a Python exception: a value that the types of this model cannot hold\<close>

section \<open>Board model (train\_tic\_tac\_toe.py, lines 51-82)\<close>

definition initial_state :: string where
  "initial_state = ''         ''"

text \<open>\<^verbatim>\<open>[i for i, ch in enumerate(state_str) if ch == ' ']\<close>\<close>

definition available_actions :: "string \<Rightarrow> int list" where
  "available_actions state_str =
     map (\<lambda>(i, ch). int i) (filter (\<lambda>(i, ch). ch = CHR '' '') (enumerate 0 state_str))"

text \<open>
  \<^verbatim>\<open>lst = list(state_str); lst[action] = symbol; return "".join(lst)\<close>.
  A negative index counts from the end; an index outside the list raises IndexError.
  Nothing looks at the cell that is overwritten.
\<close>

definition next_state :: "string \<Rightarrow> int \<Rightarrow> string \<Rightarrow> error + string" where
  "next_state state_str action symbol =
     (let lst = map (\<lambda>ch. [ch]) state_str;
          n = int (length lst);
          j = (if action < 0 then action + n else action)
      in if 0 \<le> j \<and> j < n then Inr (concat (lst[nat j := symbol])) else Inl IndexError)"

definition wins :: "(nat \<times> nat \<times> nat) list" where
  "wins = [(0,1,2), (3,4,5), (6,7,8), (0,3,6), (1,4,7), (2,5,8), (0,4,8), (2,4,6)]"

text \<open>\<^verbatim>\<open>s[i]\<close> for a literal position \<open>i\<close>.\<close>

definition getitem :: "string \<Rightarrow> nat \<Rightarrow> error + char" where
  "getitem s i = (if i < length s then Inr (s ! i) else Inl IndexError)"

text \<open>
  The chained comparison \<^verbatim>\<open>state_str[a] == state_str[b] == state_str[c] == symbol\<close>:
  operands are evaluated left to right and the chain stops at the first comparison that is false.
\<close>

definition line_filled :: "string \<Rightarrow> string \<Rightarrow> nat \<times> nat \<times> nat \<Rightarrow> error + bool" where
  "line_filled state_str symbol l =
     (case l of (a, b, c) \<Rightarrow>
       (case getitem state_str a of Inl e \<Rightarrow> Inl e | Inr x \<Rightarrow>
         (case getitem state_str b of Inl e \<Rightarrow> Inl e | Inr y \<Rightarrow>
           if x \<noteq> y then Inr False
           else (case getitem state_str c of Inl e \<Rightarrow> Inl e | Inr z \<Rightarrow>
             if y \<noteq> z then Inr False else Inr ([z] = symbol)))))"

fun check_lines :: "string \<Rightarrow> string \<Rightarrow> (nat \<times> nat \<times> nat) list \<Rightarrow> error + bool" where
  "check_lines state_str symbol [] = Inr False"
| "check_lines state_str symbol (l # ls) =
     (case line_filled state_str symbol l of
        Inl e \<Rightarrow> Inl e
      | Inr True \<Rightarrow> Inr True
      | Inr False \<Rightarrow> check_lines state_str symbol ls)"

text \<open>The same function, with the same text, is in both source files.\<close>

definition check_winner :: "string \<Rightarrow> string \<Rightarrow> error + bool" where
  "check_winner state_str symbol = check_lines state_str symbol wins"

definition is_draw :: "string \<Rightarrow> bool" where
  "is_draw state_str = (CHR '' '' \<notin> set state_str)"

section \<open>Q-learning support (train\_tic\_tac\_toe.py, lines 5-19 and 87-118)\<close>

definition ALPHA :: real where "ALPHA = 0.5"
definition GAMMA :: real where "GAMMA = 0.9"
definition EPSILON_START :: real where "EPSILON_START = 1.0"
definition EPSILON_END :: real where "EPSILON_END = 0.01"
definition EPISODES :: nat where "EPISODES = 20000"
definition REWARD_WIN :: real where "REWARD_WIN = 1.0"
definition REWARD_LOSE :: real where "REWARD_LOSE = - 1.0"
definition REWARD_DRAW :: real where "REWARD_DRAW = 0.0"

text \<open>The global dictionary \<^verbatim>\<open>Q\<close>, keyed by \<^verbatim>\<open>(state, action)\<close>, passed and returned explicitly.\<close>

type_synonym 'v q_table = "((string \<times> int) \<times> 'v) list"

text \<open>\<^verbatim>\<open>Q.get((state, action), 0.0)\<close>\<close>

definition get_q_value :: "real q_table \<Rightarrow> string \<Rightarrow> int \<Rightarrow> real" where
  "get_q_value Q state action = (case map_of Q (state, action) of None \<Rightarrow> 0.0 | Some v \<Rightarrow> v)"

text \<open>
  The builtin \<^verbatim>\<open>max(iterable, key=...)\<close> on a non-empty iterable, given as its first item and
  the rest: it keeps the first item and replaces it only by an item whose key is strictly
  greater. Every call in the source stands behind a test that the list is not empty, so the
  ValueError of the empty case has no branch here.
\<close>

fun py_max :: "('a \<Rightarrow> real) \<Rightarrow> 'a \<Rightarrow> 'a list \<Rightarrow> 'a" where
  "py_max key m [] = m"
| "py_max key m (x # xs) = py_max key (if key x > key m then x else m) xs"

definition best_action :: "real q_table \<Rightarrow> string \<Rightarrow> int option" where
  "best_action Q state =
     (case available_actions state of
        [] \<Rightarrow> None
      | a # acts \<Rightarrow> Some (py_max (\<lambda>a. get_q_value Q state a) a acts))"

text \<open>
  The random generator is the stream of its future draws. Each call takes one draw: its
  first component is what \<^verbatim>\<open>random.random()\<close> returns, its second decides the position that
  \<^verbatim>\<open>random.choice\<close> picks. Quantifying over all streams covers every run of the program.
  \<^verbatim>\<open>random.choice\<close> is only called on a list known not to be empty (first item and rest).
\<close>

type_synonym rng = "(real \<times> nat) stream"

definition random_random :: "rng \<Rightarrow> real \<times> rng" where
  "random_random g = (fst (shd g), stl g)"

definition random_choice :: "'a \<Rightarrow> 'a list \<Rightarrow> rng \<Rightarrow> 'a \<times> rng" where
  "random_choice x xs g = ((x # xs) ! (snd (shd g) mod length (x # xs)), stl g)"

definition epsilon_greedy_action :: "real q_table \<Rightarrow> string \<Rightarrow> real \<Rightarrow> rng \<Rightarrow> int option \<times> rng" where
  "epsilon_greedy_action Q state epsilon g =
     (case available_actions state of
        [] \<Rightarrow> (None, g)
      | a # acts \<Rightarrow>
          (case random_random g of (u, g1) \<Rightarrow>
            if u < epsilon
            then (case random_choice a acts g1 of (c, g2) \<Rightarrow> (Some c, g2))
            else (best_action Q state, g1)))"

definition update_q_value :: "real q_table \<Rightarrow> string \<Rightarrow> int \<Rightarrow> real \<Rightarrow> string \<Rightarrow> real q_table" where
  "update_q_value Q old_state action reward new_state =
     (let old_q = get_q_value Q old_state action;
          next_acts = available_actions new_state;
          max_q_next = (case next_acts of
                          [] \<Rightarrow> 0.0
                        | a # acts \<Rightarrow>
                            py_max (\<lambda>v. v) (get_q_value Q new_state a)
                              (map (\<lambda>a. get_q_value Q new_state a) acts));
          new_q = old_q + ALPHA * (reward + GAMMA * max_q_next - old_q)
      in AList.update (old_state, action) new_q Q)"

section \<open>The move advisor (tic\_tac\_toe\_pygame.py, lines 27-40)\<close>

definition choose_best_action :: "real q_table \<Rightarrow> string \<Rightarrow> rng \<Rightarrow> int option \<times> rng" where
  "choose_best_action Q state g =
     (let valid_actions = available_actions state in
      case valid_actions of
        [] \<Rightarrow> (None, g)
      | a # acts \<Rightarrow>
          let qvals = map (\<lambda>a. (get_q_value Q state a, a)) valid_actions in
          if list_all (\<lambda>qv. fst qv = 0.0) qvals
          then (case random_choice a acts g of (c, g1) \<Rightarrow> (Some c, g1))
          else (Some (snd (py_max (\<lambda>x. fst x) (hd qvals) (tl qvals))), g))"

section \<open>One game of self-play (train\_tic\_tac\_toe.py, lines 120-178)\<close>

text \<open>
  The variables of \<^verbatim>\<open>play_one_game\<close> that live across iterations of its loop, with the global
  table and the generator. \<open>board\<close> is the variable \<^verbatim>\<open>state\<close>. The two dictionaries map a
  symbol to \<^verbatim>\<open>None\<close> or to a value.
\<close>

record game =
  table :: "real q_table"
  gen :: rng
  board :: string
  current_symbol :: string
  other_symbol :: string
  last_state :: "(string \<times> string option) list"
  last_action :: "(string \<times> int option) list"

text \<open>\<^verbatim>\<open>d[k]\<close> on a dictionary.\<close>

definition dict_get :: "('k \<times> 'v) list \<Rightarrow> 'k \<Rightarrow> error + 'v" where
  "dict_get d k = (case map_of d k of None \<Rightarrow> Inl KeyError | Some v \<Rightarrow> Inr v)"

text \<open>
  The statement that stands twice in the loop (lines 149-154 and 162-166):
  \<^verbatim>\<open>if last_state[sym] is not None: update_q_value(last_state[sym], last_action[sym], reward, s)\<close>.
  Python would accept \<^verbatim>\<open>last_action[sym]\<close> being \<^verbatim>\<open>None\<close> and write the key
  \<^verbatim>\<open>(state, None)\<close>; a table keyed by integers cannot hold it, so that case is \<open>OutsideModel\<close>.
\<close>

definition update_last ::
  "real q_table \<Rightarrow> (string \<times> string option) list \<Rightarrow> (string \<times> int option) list \<Rightarrow> string \<Rightarrow>
   real \<Rightarrow> string \<Rightarrow> error + real q_table" where
  "update_last Q lstate laction symbol reward new_state =
     (case dict_get lstate symbol of
        Inl e \<Rightarrow> Inl e
      | Inr None \<Rightarrow> Inr Q
      | Inr (Some s) \<Rightarrow>
          (case dict_get laction symbol of
             Inl e \<Rightarrow> Inl e
           | Inr None \<Rightarrow> Inl OutsideModel
           | Inr (Some a) \<Rightarrow> Inr (update_q_value Q s a reward new_state)))"

datatype outcome = Return int "real q_table" rng | Continue game

text \<open>One pass through the body of \<^verbatim>\<open>while True\<close>.\<close>

definition game_step :: "real \<Rightarrow> game \<Rightarrow> error + outcome" where
  "game_step epsilon g =
     (case epsilon_greedy_action (table g) (board g) epsilon (gen g) of (action_opt, g1) \<Rightarrow>
       (case action_opt of
          None \<Rightarrow> Inr (Return 0 (table g) g1)
        | Some action \<Rightarrow>
            let old_state = board g; old_action = action in
            (case next_state (board g) action (current_symbol g) of
               Inl e \<Rightarrow> Inl e
             | Inr state \<Rightarrow>
                 (case update_last (table g) (last_state g) (last_action g) (current_symbol g)
                         0.0 old_state of
                    Inl e \<Rightarrow> Inl e
                  | Inr Q1 \<Rightarrow>
                      (case check_winner state (current_symbol g) of
                         Inl e \<Rightarrow> Inl e
                       | Inr True \<Rightarrow>
                           let Q2 = update_q_value Q1 old_state action REWARD_WIN state in
                           (case update_last Q2 (last_state g) (last_action g) (other_symbol g)
                                   REWARD_LOSE old_state of
                              Inl e \<Rightarrow> Inl e
                            | Inr Q3 \<Rightarrow>
                                Inr (Return (if current_symbol g = ''X'' then 1 else - 1) Q3 g1))
                       | Inr False \<Rightarrow>
                           if is_draw state
                           then Inr (Return 0
                                  (update_q_value Q1 old_state action REWARD_DRAW state) g1)
                           else Inr (Continue
                                  \<lparr>table = Q1, gen = g1, board = state,
                                   current_symbol = other_symbol g,
                                   other_symbol = current_symbol g,
                                   last_state =
                                     AList.update (current_symbol g) (Some old_state) (last_state g),
                                   last_action =
                                     AList.update (current_symbol g) (Some old_action)
                                       (last_action g)\<rparr>))))))"

text \<open>
  The loop itself has no bound in the source. Here it runs on fuel, one unit for each pass:
  \<open>None\<close> means the fuel ran out before the loop returned.
\<close>

fun play_loop :: "nat \<Rightarrow> real \<Rightarrow> game \<Rightarrow> (error + int \<times> real q_table \<times> rng) option" where
  "play_loop 0 epsilon g = None"
| "play_loop (Suc fuel) epsilon g =
     (case game_step epsilon g of
        Inl e \<Rightarrow> Some (Inl e)
      | Inr (Return r Q' g') \<Rightarrow> Some (Inr (r, Q', g'))
      | Inr (Continue g') \<Rightarrow> play_loop fuel epsilon g')"

definition new_game :: "real q_table \<Rightarrow> rng \<Rightarrow> game" where
  "new_game Q g =
     \<lparr>table = Q, gen = g, board = initial_state,
      current_symbol = ''X'', other_symbol = ''O'',
      last_state = [(''X'', None), (''O'', None)],
      last_action = [(''X'', None), (''O'', None)]\<rparr>"

definition play_one_game ::
  "nat \<Rightarrow> real \<Rightarrow> real q_table \<Rightarrow> rng \<Rightarrow> (error + int \<times> real q_table \<times> rng) option" where
  "play_one_game fuel epsilon Q g = play_loop fuel epsilon (new_game Q g)"

section \<open>The training run (train\_tic\_tac\_toe.py, lines 184-205)\<close>

text \<open>
  \<^verbatim>\<open>**\<close> on floats with a positive base is \<^const>\<open>powr\<close>; the constants make the base 0.01.
\<close>

definition decay :: real where
  "decay = (if EPSILON_START > 0
            then (EPSILON_END / EPSILON_START) powr (1.0 / real EPISODES)
            else 1.0)"

record training =
  q :: "real q_table"
  generator :: rng
  epsilon :: real
  x_wins :: nat
  o_wins :: nat
  draws :: nat

text \<open>The body of \<^verbatim>\<open>for episode in range(EPISODES)\<close>.\<close>

definition episode :: "nat \<Rightarrow> training \<Rightarrow> (error + training) option" where
  "episode fuel t =
     (case play_one_game fuel (epsilon t) (q t) (generator t) of
        None \<Rightarrow> None
      | Some (Inl e) \<Rightarrow> Some (Inl e)
      | Some (Inr (result, Q', g')) \<Rightarrow>
          Some (Inr \<lparr>q = Q', generator = g',
                     epsilon = max EPSILON_END (epsilon t * decay),
                     x_wins = (if result = 1 then x_wins t + 1 else x_wins t),
                     o_wins = (if result = 1 then o_wins t
                               else if result = - 1 then o_wins t + 1 else o_wins t),
                     draws = (if result = 1 then draws t
                              else if result = - 1 then draws t else draws t + 1)\<rparr>))"

fun run_episodes :: "nat \<Rightarrow> nat \<Rightarrow> training \<Rightarrow> (error + training) option" where
  "run_episodes fuel 0 t = Some (Inr t)"
| "run_episodes fuel (Suc n) t =
     (case episode fuel t of
        None \<Rightarrow> None
      | Some (Inl e) \<Rightarrow> Some (Inl e)
      | Some (Inr t') \<Rightarrow> run_episodes fuel n t')"

definition start_training :: "real q_table \<Rightarrow> rng \<Rightarrow> training" where
  "start_training Q g =
     \<lparr>q = Q, generator = g, epsilon = EPSILON_START, x_wins = 0, o_wins = 0, draws = 0\<rparr>"

section \<open>The update rule in the words of the specification\<close>

text \<open>
  Written from the specification, to be compared with the code: an action is legal in a state
  when it names an empty cell, and \<open>max_next\<close> is the maximum of the stored values over the
  legal actions of the successor state, 0.0 when there is none.
\<close>

definition legal_actions :: "string \<Rightarrow> int set" where
  "legal_actions state = {a. 0 \<le> a \<and> nat a < length state \<and> state ! nat a = CHR '' ''}"

definition max_next :: "real q_table \<Rightarrow> string \<Rightarrow> real" where
  "max_next Q s' =
     (if legal_actions s' = {} then 0.0 else Max ((\<lambda>a'. get_q_value Q s' a') ` legal_actions s'))"

section \<open>The game loop: what its passes keep and reach\<close>

text \<open>The number of empty cells of a board.\<close>

definition empty_cells :: "string \<Rightarrow> nat" where
  "empty_cells state_str = length (filter (\<lambda>ch. ch = CHR '' '') state_str)"

text \<open>
  What holds of the loop variables at the start of every pass of a game: the board has nine
  cells, the two symbols are \<open>''X''\<close> or \<open>''O''\<close>, both dictionaries have both keys, and a
  symbol with a recorded last state has a recorded last action.
\<close>

definition game_ok :: "game \<Rightarrow> bool" where
  "game_ok g =
     (length (board g) = 9
      \<and> (current_symbol g = ''X'' \<or> current_symbol g = ''O'')
      \<and> (other_symbol g = ''X'' \<or> other_symbol g = ''O'')
      \<and> list_all (\<lambda>k. map_of (last_state g) k \<noteq> None \<and> map_of (last_action g) k \<noteq> None
                    \<and> (map_of (last_state g) k = Some None \<or> map_of (last_action g) k \<noteq> Some None))
           [''X'', ''O''])"

text \<open>The loop states that a game started in \<open>g0\<close> goes through, one pass after the other.\<close>

inductive reaches :: "real \<Rightarrow> game \<Rightarrow> game \<Rightarrow> bool" for epsilon g0 where
  start: "reaches epsilon g0 g0"
| pass: "reaches epsilon g0 g \<Longrightarrow> game_step epsilon g = Inr (Continue g') \<Longrightarrow> reaches epsilon g0 g'"

section \<open>The exploration schedule in the words of the specification\<close>

text \<open>
  Written from the specification, to be compared with the loop of the training run: epsilon
  starts at \<open>EPSILON_START\<close> and after each episode becomes
  \<open>max(EPSILON_END, epsilon * decay)\<close> with \<open>decay = (EPSILON_END/EPSILON_START)^(1/EPISODES)\<close>.
  \<open>epsilon_schedule n\<close> is the value after \<open>n\<close> episodes, the one that episode \<open>n + 1\<close> uses.
\<close>

primrec epsilon_schedule :: "nat \<Rightarrow> real" where
  "epsilon_schedule 0 = EPSILON_START"
| "epsilon_schedule (Suc n) =
     max EPSILON_END
       (epsilon_schedule n * (EPSILON_END / EPSILON_START) powr (1 / real EPISODES))"

section \<open>Persistence (train\_tic\_tac\_toe.py, lines 21-46; tic\_tac\_toe\_pygame.py, lines 14-25)\<close>

text \<open>
  The two functions of the repository call into Python's library. What they rely on is written
  here from the behaviour of CPython 3:
  \<^item> \<^verbatim>\<open>str(i)\<close> of an integer is its decimal numeral, with \<^verbatim>\<open>-\<close> in front when negative;
  \<^item> \<^verbatim>\<open>int(s)\<close> of a string strips white space at both ends, reads an optional sign and then
    decimal digits, where single underscores may stand between digits, and raises ValueError
    on anything else (characters are the code points below 256; digits and spaces beyond them
    are outside the model);
  \<^item> \<^verbatim>\<open>json.load\<close> raises on text that is not JSON and otherwise returns the decoded value; a
    file is modelled by which of the two happens. \<^verbatim>\<open>json.dump\<close> writes a text that decodes to
    the value dumped;
  \<^item> \<^verbatim>\<open>os.path.exists\<close> and \<^verbatim>\<open>open\<close> see a file system that maps a path to its file, if any.
    Failures of the operating system (permissions, a directory in the way) are not modelled.
\<close>

definition digit_char :: "nat \<Rightarrow> char" where
  "digit_char d = char_of (48 + d)"

fun digits :: "nat \<Rightarrow> string" where
  "digits n = (if n < 10 then [digit_char n] else digits (n div 10) @ [digit_char (n mod 10)])"

declare digits.simps [simp del]

definition py_str :: "int \<Rightarrow> string" where
  "py_str i = (if i < 0 then CHR ''-'' # digits (nat (- i)) else digits (nat i))"

definition is_space :: "char \<Rightarrow> bool" where
  "is_space c = ((of_char c :: nat) \<in> set [9, 10, 11, 12, 13, 32, 133, 160])"

definition is_digit :: "char \<Rightarrow> bool" where
  "is_digit c = (48 \<le> (of_char c :: nat) \<and> (of_char c :: nat) \<le> 57)"

definition digit_value :: "char \<Rightarrow> nat" where
  "digit_value c = of_char c - 48"

definition strip :: "string \<Rightarrow> string" where
  "strip s = rev (dropWhile is_space (rev (dropWhile is_space s)))"

text \<open>The digits after the first one; \<open>acc\<close> is the value read so far.\<close>

fun digits_value :: "nat \<Rightarrow> string \<Rightarrow> nat option" where
  "digits_value acc [] = Some acc"
| "digits_value acc [c] = (if is_digit c then Some (10 * acc + digit_value c) else None)"
| "digits_value acc (c # d # cs) =
     (if is_digit c then digits_value (10 * acc + digit_value c) (d # cs)
      else if c = CHR ''_'' \<and> is_digit d then digits_value (10 * acc + digit_value d) cs
      else None)"

definition parse_digits :: "string \<Rightarrow> nat option" where
  "parse_digits s =
     (case s of
        [] \<Rightarrow> None
      | c # cs \<Rightarrow> if is_digit c then digits_value (digit_value c) cs else None)"

definition py_int :: "string \<Rightarrow> error + int" where
  "py_int s =
     (case strip s of
        [] \<Rightarrow> Inl ValueError
      | c # cs \<Rightarrow>
          (case (if c = CHR ''-'' \<or> c = CHR ''+'' then parse_digits cs else parse_digits (c # cs)) of
             None \<Rightarrow> Inl ValueError
           | Some n \<Rightarrow> Inr (if c = CHR ''-'' then - int n else int n)))"

text \<open>
  Decoded JSON. An object is the list of its members in the order of the dictionary that the
  decoder builds, so its keys are distinct.
\<close>

datatype json =
  JNull | JBool bool | JNumber real | JString string | JArray "json list"
  | JObject "(string \<times> json) list"

datatype stored_file = Undecodable | Document json

type_synonym filesystem = "string \<rightharpoonup> stored_file"

definition json_load :: "stored_file \<Rightarrow> error + json" where
  "json_load f = (case f of Undecodable \<Rightarrow> Inl JSONDecodeError | Document v \<Rightarrow> Inr v)"

text \<open>\<^verbatim>\<open>v.items()\<close>: only a dictionary has the method.\<close>

definition items :: "json \<Rightarrow> error + (string \<times> json) list" where
  "items v = (case v of JObject kvs \<Rightarrow> Inr kvs | _ \<Rightarrow> Inl AttributeError)"

text \<open>
  The body of the loop of \<^verbatim>\<open>save_q_table\<close>: \<^verbatim>\<open>q_data\<close> maps a state to the dictionary of its
  actions, and \<^verbatim>\<open>q_data[state][str(action)] = value\<close> writes into the inner dictionary in place.
\<close>

definition save_entry ::
  "(string \<times> (string \<times> json) list) list \<Rightarrow> (string \<times> int) \<times> json \<Rightarrow>
   (string \<times> (string \<times> json) list) list" where
  "save_entry q_data e =
     (case e of ((state, action), v) \<Rightarrow>
        let q1 = (if map_of q_data state = None then AList.update state [] q_data else q_data)
        in AList.map_entry state (AList.update (py_str action) v) q1)"

definition json_dump :: "(string \<times> (string \<times> json) list) list \<Rightarrow> stored_file" where
  "json_dump q_data = Document (JObject (map (\<lambda>(state, d). (state, JObject d)) q_data))"

text \<open>
  The values of the table are whatever Python objects it holds; the ones that JSON can carry
  are modelled. A table of floats is a table of \<open>JNumber\<close> values.
\<close>

definition save_q_table :: "json q_table \<Rightarrow> filesystem \<Rightarrow> string \<Rightarrow> filesystem" where
  "save_q_table Q fs file_path = fs(file_path \<mapsto> json_dump (foldl save_entry [] Q))"

text \<open>The inner loop of \<^verbatim>\<open>load_q_table\<close>, over the items of one state.\<close>

fun load_actions :: "string \<Rightarrow> (string \<times> json) list \<Rightarrow> json q_table \<Rightarrow> error + json q_table" where
  "load_actions state [] Q = Inr Q"
| "load_actions state ((action_str, v) # rest) Q =
     (case py_int action_str of
        Inl e \<Rightarrow> Inl e
      | Inr action \<Rightarrow> load_actions state rest (AList.update (state, action) v Q))"

text \<open>The outer loop, over the items of the decoded file.\<close>

fun load_states :: "(string \<times> json) list \<Rightarrow> json q_table \<Rightarrow> error + json q_table" where
  "load_states [] Q = Inr Q"
| "load_states ((state, actions) # rest) Q =
     (case items actions of
        Inl e \<Rightarrow> Inl e
      | Inr kvs \<Rightarrow>
          (case load_actions state kvs Q of
             Inl e \<Rightarrow> Inl e
           | Inr Q' \<Rightarrow> load_states rest Q'))"

text \<open>
  \<^verbatim>\<open>load_q_table\<close>, the same in both source files (the player also prints a message when the
  file is missing). It writes into the table that is there; a missing file resets the table.
  An exception leaves the process with it, so the table written so far is not returned.
\<close>

definition load_q_table :: "filesystem \<Rightarrow> string \<Rightarrow> json q_table \<Rightarrow> error + json q_table" where
  "load_q_table fs file_path Q =
     (case fs file_path of
        None \<Rightarrow> Inr []
      | Some f \<Rightarrow>
          (case json_load f of
             Inl e \<Rightarrow> Inl e
           | Inr q_data \<Rightarrow>
               (case items q_data of
                  Inl e \<Rightarrow> Inl e
                | Inr kvs \<Rightarrow> load_states kvs Q)))"

section \<open>The persisted format in the words of the specification\<close>

text \<open>
  Written from section 6 of the specification: a mapping from a state, a board string of nine
  characters, to a nested mapping from an action, the string form of an integer from 0 to 8,
  to its numeric value. A file is well formed when it decodes to such a value.
\<close>

definition persisted_format :: "json \<Rightarrow> bool" where
  "persisted_format v =
     (case v of
        JObject kvs \<Rightarrow>
          list_all (\<lambda>(state, actions).
              length state = 9 \<and> set state \<subseteq> {CHR '' '', CHR ''X'', CHR ''O''}
              \<and> (case actions of
                    JObject d \<Rightarrow>
                      list_all (\<lambda>(action_str, x).
                          action_str \<in> set (map py_str [0..8])
                          \<and> (case x of JNumber r \<Rightarrow> True | _ \<Rightarrow> False)) d
                  | _ \<Rightarrow> False)) kvs
      | _ \<Rightarrow> False)"

definition well_formed_file :: "stored_file \<Rightarrow> bool" where
  "well_formed_file f = (case f of Undecodable \<Rightarrow> False | Document v \<Rightarrow> persisted_format v)"

text \<open>What the code asks of a file, read off the three places where it can raise.\<close>

definition loadable :: "stored_file \<Rightarrow> bool" where
  "loadable f =
     (case f of
        Undecodable \<Rightarrow> False
      | Document v \<Rightarrow>
          (case v of
             JObject kvs \<Rightarrow>
               list_all (\<lambda>(state, actions).
                   (case actions of
                      JObject d \<Rightarrow> list_all (\<lambda>(action_str, x). \<not> isl (py_int action_str)) d
                    | _ \<Rightarrow> False)) kvs
           | _ \<Rightarrow> False))"

section \<open>Persistence: notions used in the proofs\<close>

text \<open>What the inner loop of \<^verbatim>\<open>load_q_table\<close> asks of the entry of one state.\<close>

definition actions_ok :: "string \<times> json \<Rightarrow> bool" where
  "actions_ok = (\<lambda>(state, actions).
                   (case actions of
                      JObject d \<Rightarrow> list_all (\<lambda>(action_str, x). \<not> isl (py_int action_str)) d
                    | _ \<Rightarrow> False))"

text \<open>
  The nested dictionary \<^verbatim>\<open>q_data\<close> of \<^verbatim>\<open>save_q_table\<close>, read at a state and an action string,
  and what holds of it all along: keys are distinct at both levels and every action string is
  the \<^verbatim>\<open>str\<close> of an integer.
\<close>

definition lookup2 :: "(string \<times> (string \<times> json) list) list \<Rightarrow> string \<times> string \<Rightarrow> json option" where
  "lookup2 q_data = (\<lambda>(state, k). case map_of q_data state of None \<Rightarrow> None | Some d \<Rightarrow> map_of d k)"

definition nested_ok :: "(string \<times> (string \<times> json) list) list \<Rightarrow> bool" where
  "nested_ok q_data =
     (distinct (map fst q_data)
      \<and> (\<forall>state d. map_of q_data state = Some d \<longrightarrow>
            distinct (map fst d) \<and> fst ` set d \<subseteq> range py_str))"

section \<open>Board model: properties\<close>

lemma enumerate_nth: "enumerate 0 s = map (\<lambda>i. (i, s ! i)) [0..<length s]"
  by (rule nth_equalityI) (simp_all add: nth_enumerate_eq)

lemma available_actions_filter:
  "available_actions s = map int (filter (\<lambda>i. s ! i = CHR '' '') [0..<length s])"
  unfolding available_actions_def enumerate_nth by (simp add: filter_map comp_def)

lemma set_available_actions:
  "set (available_actions s) = {int i |i. i < length s \<and> s ! i = CHR '' ''}"
  by (auto simp: available_actions_filter)

lemma distinct_available_actions: "distinct (available_actions s)"
  by (simp add: available_actions_filter distinct_map inj_on_def)

lemma sorted_available_actions: "sorted (available_actions s)"
proof -
  have "sorted (filter (\<lambda>i. s ! i = CHR '' '') [0..<length s])"
    by (rule sorted_wrt_filter) simp
  then show ?thesis
    unfolding available_actions_filter by (simp add: sorted_map sorted_wrt_mono_rel[of _ "(\<le>)"])
qed

lemma join_singletons: "concat (map (\<lambda>ch. [ch]) s) = s"
  by (induction s) simp_all

lemma join_update: "concat ((map (\<lambda>ch. [ch]) s)[j := [c]]) = s[j := c]"
proof -
  have "(map (\<lambda>ch. [ch]) s)[j := [c]] = map (\<lambda>ch. [ch]) (s[j := c])"
    by (simp add: map_update)
  then show ?thesis by (simp add: join_singletons)
qed

lemma next_state_in_range:
  assumes "0 \<le> a" "nat a < length s"
  shows "next_state s a [c] = Inr (s[nat a := c])"
  using assms by (simp add: next_state_def Let_def join_update)

lemma line_filled_in_range:
  assumes "a < length s" "b < length s" "c < length s"
  shows "line_filled s m (a, b, c) = Inr ([s ! a] = m \<and> [s ! b] = m \<and> [s ! c] = m)"
  using assms by (auto simp: line_filled_def getitem_def)

lemma check_lines_in_range:
  assumes "\<forall>(a, b, c) \<in> set ls. a < length s \<and> b < length s \<and> c < length s"
  shows "check_lines s m ls = Inr (\<exists>(a, b, c) \<in> set ls. [s ! a] = m \<and> [s ! b] = m \<and> [s ! c] = m)"
  using assms
proof (induction ls)
  case Nil
  show ?case by simp
next
  case (Cons l ls)
  obtain a b c where l: "l = (a, b, c)" by (cases l) auto
  from Cons.prems l have r: "a < length s" "b < length s" "c < length s" by auto
  from Cons have IH: "check_lines s m ls = Inr (\<exists>(a, b, c) \<in> set ls. [s ! a] = m \<and> [s ! b] = m \<and> [s ! c] = m)"
    by simp
  show ?case
    by (auto simp add: l line_filled_in_range[OF r] IH split: bool.splits)
qed

lemma three_cells_counted:
  assumes "i < length s" "j < length s" "k < length s" "i \<noteq> j" "i \<noteq> k" "j \<noteq> k"
    and "P (s ! i)" "P (s ! j)" "P (s ! k)"
  shows "3 \<le> length (filter P s)"
proof -
  have "{i, j, k} \<subseteq> {n. n < length s \<and> P (s ! n)}" using assms by auto
  then have "card {i, j, k} \<le> card {n. n < length s \<and> P (s ! n)}"
    by (intro card_mono) auto
  moreover have "card {i, j, k} = 3" using assms by simp
  ultimately show ?thesis by (simp add: length_filter_conv_card)
qed

lemma check_winner_nine:
  assumes "length s = 9"
  shows "check_winner s m = Inr (\<exists>(a, b, c) \<in> set wins. [s ! a] = m \<and> [s ! b] = m \<and> [s ! c] = m)"
  unfolding check_winner_def
  by (rule check_lines_in_range) (simp add: wins_def assms)

text \<open>
  Claim C7. On a board of nine cells, \<^const>\<open>check_winner\<close> returns true exactly when one of the
  eight lines (three rows, three columns, two diagonals) holds the symbol in all three cells,
  and so it returns false on every board with fewer than three cells holding the symbol. It is
  proved for every symbol, \<open>''X''\<close> and \<open>''O''\<close> among them.
\<close>

theorem check_winner_eight_lines:
  assumes "length s = 9"
  shows "check_winner s m =
           Inr (\<exists>(a, b, c) \<in> {(0,1,2), (3,4,5), (6,7,8), (0,3,6), (1,4,7), (2,5,8), (0,4,8), (2,4,6)}.
                  [s ! a] = m \<and> [s ! b] = m \<and> [s ! c] = m)
         \<and> (length (filter (\<lambda>ch. [ch] = m) s) < 3 \<longrightarrow> check_winner s m = Inr False)"
proof -
  have w: "set wins = {(0,1,2), (3,4,5), (6,7,8), (0,3,6), (1,4,7), (2,5,8), (0,4,8), (2,4,6)}"
    by (simp add: wins_def)
  have first: "check_winner s m =
           Inr (\<exists>(a, b, c) \<in> {(0,1,2), (3,4,5), (6,7,8), (0,3,6), (1,4,7), (2,5,8), (0,4,8), (2,4,6)}.
                  [s ! a] = m \<and> [s ! b] = m \<and> [s ! c] = m)"
    using check_winner_nine[OF assms, of m] unfolding w .
  have second: "check_winner s m = Inr False" if few: "length (filter (\<lambda>ch. [ch] = m) s) < 3"
  proof -
    have "\<not> (\<exists>(a, b, c) \<in> set wins. [s ! a] = m \<and> [s ! b] = m \<and> [s ! c] = m)"
    proof
      assume "\<exists>(a, b, c) \<in> set wins. [s ! a] = m \<and> [s ! b] = m \<and> [s ! c] = m"
      then obtain a b c where abc: "(a, b, c) \<in> set wins" "[s ! a] = m" "[s ! b] = m" "[s ! c] = m"
        by auto
      from abc(1) have "a < length s \<and> b < length s \<and> c < length s \<and> a \<noteq> b \<and> a \<noteq> c \<and> b \<noteq> c"
        by (auto simp: wins_def assms)
      with abc have "3 \<le> length (filter (\<lambda>ch. [ch] = m) s)"
        by (intro three_cells_counted[of a s b c]) auto
      with few show False by simp
    qed
    then show ?thesis by (simp add: check_winner_nine[OF assms])
  qed
  from first second show ?thesis by blast
qed

theorem check_winner_eight_lines_witness:
  "length ''XXXOO    '' = 9 \<and> check_winner ''XXXOO    '' ''X'' = Inr True
   \<and> length (filter (\<lambda>ch. [ch] = ''X'') ''XXO  O   '') < 3
   \<and> check_winner ''XXO  O   '' ''X'' = Inr False"
  using check_winner_eight_lines[of "''XXXOO    ''" "''X''"]
        check_winner_eight_lines[of "''XXO  O   ''" "''X''"]
  by simp

text \<open>
  Claim C3, as amended. \<^const>\<open>next_state\<close> has no guard: for every board of nine cells, every
  action from 0 to 8 and either mark it returns the board with that cell set to the mark,
  whether the cell was empty or not. The counterexample below is the claim as stated failing:
  an occupied cell is overwritten and no error is returned.
\<close>

theorem next_state_overwrites:
  assumes "length s = 9" "0 \<le> a" "a \<le> 8" "m = ''X'' \<or> m = ''O''"
  shows "next_state s a m = Inr (s[nat a := hd m])"
  using assms by (auto simp: next_state_in_range)

theorem next_state_overwrites_witness:
  "length ''X        '' = 9 \<and> ''X        '' ! nat 0 \<noteq> CHR '' ''
    \<and> next_state ''X        '' 0 ''O'' = Inr ''O        ''"
  using next_state_overwrites[of "''X        ''" 0 "''O''"] by simp

theorem next_state_no_guard_counterexample:
  "''X        '' ! nat 0 \<noteq> CHR '' '' \<and> next_state ''X        '' 0 ''O'' = Inr ''O        ''"
  by (simp add: next_state_def)

text \<open>
  Claim C8. For a board of nine cells, an action from 0 to 8 naming an empty cell, and a mark
  \<open>''X''\<close> or \<open>''O''\<close>: \<^const>\<open>next_state\<close> returns a board of nine cells in which the named cell
  holds the mark (so it is not empty) and every other cell is as before.
\<close>

theorem next_state_frame:
  assumes "length s = 9" "0 \<le> a" "a \<le> 8" "s ! nat a = CHR '' ''" "m = ''X'' \<or> m = ''O''"
  shows "\<exists>s'. next_state s a m = Inr s' \<and> length s' = 9 \<and> [s' ! nat a] = m
           \<and> s' ! nat a \<noteq> CHR '' '' \<and> (\<forall>i<9. i \<noteq> nat a \<longrightarrow> s' ! i = s ! i)"
  using assms by (auto simp: next_state_in_range)

theorem next_state_frame_witness:
  "\<exists>s'. next_state ''XO       '' 4 ''X'' = Inr s' \<and> s' = ''XO  X    ''"
  using next_state_frame[of "''XO       ''" 4 "''X''"] by (simp add: next_state_def)

section \<open>Q-learning support: properties\<close>

lemma legal_actions_available: "legal_actions s = set (available_actions s)"
  unfolding set_available_actions legal_actions_def
  by (auto intro: exI[of _ "nat a" for a])

lemma py_max_values: "py_max (\<lambda>v. v) m xs = Max (set (m # xs))"
proof (induction xs arbitrary: m)
  case Nil
  show ?case by simp
next
  case (Cons x xs)
  have "Max (insert (if m < x then x else m) (set xs)) = Max (insert m (insert x (set xs)))"
  proof (cases "set xs = {}")
    case True
    then show ?thesis by (simp add: max_def)
  next
    case False
    then show ?thesis by (auto simp: max_def)
  qed
  then show ?case by (simp add: Cons.IH)
qed

lemma max_q_next_eq:
  "(case available_actions s' of [] \<Rightarrow> 0.0
    | a # acts \<Rightarrow> py_max (\<lambda>v. v) (get_q_value Q s' a) (map (\<lambda>a. get_q_value Q s' a) acts))
   = max_next Q s'"
proof (cases "available_actions s'")
  case Nil
  then show ?thesis by (simp add: max_next_def legal_actions_available)
next
  case (Cons a acts)
  then show ?thesis
    by (simp add: max_next_def legal_actions_available py_max_values)
qed

lemma update_q_value_eq:
  "update_q_value Q s a r s' =
     AList.update (s, a)
       (get_q_value Q s a + ALPHA * (r + GAMMA * max_next Q s' - get_q_value Q s a)) Q"
  unfolding update_q_value_def Let_def max_q_next_eq ..

text \<open>
  Claim C1. For every table, state, action, reward and successor state, \<^const>\<open>update_q_value\<close>
  sets the entry of \<open>(s, a)\<close> to
  \<open>get(s,a) + ALPHA * (r + GAMMA * max_next - get(s,a))\<close>, where \<open>max_next\<close> is the maximum of
  the stored values over the legal actions of the successor state and 0.0 when it has none,
  with \<open>ALPHA = 0.5\<close> and \<open>GAMMA = 0.9\<close>. The entry holds exactly that value.
\<close>

theorem update_q_value_rule:
  "map_of (update_q_value Q s a r s') (s, a)
     = Some (get_q_value Q s a + ALPHA * (r + GAMMA * max_next Q s' - get_q_value Q s a))
   \<and> get_q_value (update_q_value Q s a r s') s a
     = get_q_value Q s a + ALPHA * (r + GAMMA * max_next Q s' - get_q_value Q s a)
   \<and> ALPHA = 0.5 \<and> GAMMA = 0.9"
  by (simp add: update_q_value_eq update_conv' get_q_value_def ALPHA_def GAMMA_def)

lemma avail_one: "available_actions ''XOXOXOXO '' = [8]"
  by (simp add: available_actions_def)

theorem update_q_value_rule_witness:
  "get_q_value (update_q_value [((''XOXOXOXO '', 8), 1)] ''XOXOXOX  '' 7 0 ''XOXOXOXO '')
     ''XOXOXOX  '' 7 = 0.45"
proof -
  let ?Q = "[((''XOXOXOXO '', 8), 1)] :: real q_table"
  have m: "max_next ?Q ''XOXOXOXO '' = 1"
    by (simp add: max_next_def legal_actions_available avail_one get_q_value_def)
  have g: "get_q_value ?Q ''XOXOXOX  '' 7 = 0"
    by (simp add: get_q_value_def)
  have "get_q_value (update_q_value ?Q ''XOXOXOX  '' 7 0 ''XOXOXOXO '') ''XOXOXOX  '' 7
        = get_q_value ?Q ''XOXOXOX  '' 7
          + ALPHA * (0 + GAMMA * max_next ?Q ''XOXOXOXO '' - get_q_value ?Q ''XOXOXOX  '' 7)"
    using update_q_value_rule[of ?Q "''XOXOXOX  ''" 7 0 "''XOXOXOXO ''"] by blast
  also have "\<dots> = 0.45"
    by (simp add: m g ALPHA_def GAMMA_def)
  finally show ?thesis .
qed

text \<open>
  Claim C10. \<^const>\<open>update_q_value\<close> changes at most the entry of \<open>(old_state, action)\<close>: for every
  other pair, the entry of the dictionary and the value read by \<^const>\<open>get_q_value\<close> are the
  same before and after the call.
\<close>

theorem update_q_value_frame:
  assumes "(s, a) \<noteq> (old_state, action)"
  shows "map_of (update_q_value Q old_state action reward new_state) (s, a) = map_of Q (s, a)
       \<and> get_q_value (update_q_value Q old_state action reward new_state) s a = get_q_value Q s a"
  using assms by (auto simp add: update_q_value_eq update_conv' get_q_value_def)

theorem update_q_value_frame_witness:
  "(''         '', 0) \<noteq> (''         '', 4::int)
   \<and> get_q_value (update_q_value [((''         '', 0), 0.25)] ''         '' 4 1 ''    X    '') ''         '' 0 = 0.25"
  using update_q_value_frame[of "''         ''" 0 "''         ''" 4 "[((''         '', 0), 0.25)]" 1 "''    X    ''"]
  by (simp add: get_q_value_def)

section \<open>The move advisor: properties\<close>

lemma py_max_pairs:
  "py_max (\<lambda>x. fst x) (f a, a) (map (\<lambda>a. (f a, a)) xs) = (f (py_max f a xs), py_max f a xs)"
  by (induction xs arbitrary: a) simp_all

lemma ball_Cons_least:
  fixes r :: int
  assumes "P x \<longrightarrow> r = x" "\<forall>b \<in> set xs. P b \<longrightarrow> r \<le> b"
  shows "\<forall>b \<in> set (x # xs). P b \<longrightarrow> r \<le> b"
  using assms by auto

lemma ball_Cons_least_le:
  fixes r :: int
  assumes "P x \<longrightarrow> r \<le> x" "\<forall>b \<in> set xs. P b \<longrightarrow> r \<le> b"
  shows "\<forall>b \<in> set (x # xs). P b \<longrightarrow> r \<le> b"
  using assms by auto

lemma ball_Cons_bound:
  fixes v :: real
  assumes "g x \<le> v" "\<forall>b \<in> set xs. g b \<le> v"
  shows "\<forall>b \<in> set (x # xs). g b \<le> v"
  using assms by auto

lemma py_max_least_best:
  fixes f :: "int \<Rightarrow> real"
  assumes "sorted (a # xs)"
  shows "py_max f a xs \<in> set (a # xs)
       \<and> f a \<le> f (py_max f a xs)
       \<and> (f a = f (py_max f a xs) \<longrightarrow> py_max f a xs = a)
       \<and> (\<forall>b \<in> set xs. f b \<le> f (py_max f a xs))
       \<and> (\<forall>b \<in> set xs. f b = f (py_max f a xs) \<longrightarrow> py_max f a xs \<le> b)"
  using assms
proof (induction xs arbitrary: a)
  case Nil
  show ?case by simp
next
  case (Cons x xs)
  from Cons.prems have ax: "a \<le> x" and sx: "sorted (x # xs)" and sa: "sorted (a # xs)"
    by auto
  show ?case
  proof (cases "f a < f x")
    case True
    let ?r = "py_max f x xs"
    have r: "py_max f a (x # xs) = ?r" using True by simp
    note IH = Cons.IH[OF sx]
    from IH have 1: "?r \<in> set (x # xs)" by blast
    from IH have 2: "f x \<le> f ?r" by blast
    from IH have 3: "f x = f ?r \<longrightarrow> ?r = x" by blast
    from IH have 4: "\<forall>b \<in> set xs. f b \<le> f ?r" by blast
    from IH have 5: "\<forall>b \<in> set xs. f b = f ?r \<longrightarrow> ?r \<le> b" by blast
    have c1: "?r \<in> set (a # x # xs)" using 1 by (simp del: py_max.simps)
    have c2: "f a \<le> f ?r" using True 2 by linarith
    have c3: "f a = f ?r \<longrightarrow> ?r = a" using True 2 by linarith
    have c4: "\<forall>b \<in> set (x # xs). f b \<le> f ?r" using 2 4 by (rule ball_Cons_bound)
    have c5: "\<forall>b \<in> set (x # xs). f b = f ?r \<longrightarrow> ?r \<le> b"
      using 3 5 by (rule ball_Cons_least[where P = "\<lambda>b. f b = f ?r"])
    from c1 c2 c3 c4 c5 show ?thesis unfolding r by blast
  next
    case False
    let ?r = "py_max f a xs"
    have r: "py_max f a (x # xs) = ?r" using False by simp
    note IH = Cons.IH[OF sa]
    from IH have 1: "?r \<in> set (a # xs)" by blast
    from IH have 2: "f a \<le> f ?r" by blast
    from IH have 3: "f a = f ?r \<longrightarrow> ?r = a" by blast
    from IH have 4: "\<forall>b \<in> set xs. f b \<le> f ?r" by blast
    from IH have 5: "\<forall>b \<in> set xs. f b = f ?r \<longrightarrow> ?r \<le> b" by blast
    have c1: "?r \<in> set (a # x # xs)" using 1 by (auto simp del: py_max.simps)
    have fx: "f x \<le> f ?r" using False 2 by linarith
    have c4: "\<forall>b \<in> set (x # xs). f b \<le> f ?r" using fx 4 by (rule ball_Cons_bound)
    have "f x = f ?r \<longrightarrow> ?r \<le> x"
    proof
      assume "f x = f ?r"
      with False 2 have "f a = f ?r" by linarith
      with 3 have "?r = a" by blast
      with ax show "?r \<le> x" by linarith
    qed
    moreover note 5
    ultimately have c5: "\<forall>b \<in> set (x # xs). f b = f ?r \<longrightarrow> ?r \<le> b"
      by (rule ball_Cons_least_le[where P = "\<lambda>b. f b = f ?r"])
    from c1 2 3 c4 c5 show ?thesis unfolding r by blast
  qed
qed

lemma py_max_sorted:
  fixes f :: "int \<Rightarrow> real"
  assumes "sorted (a # acts)"
  shows "py_max f a acts \<in> set (a # acts)
       \<and> (\<forall>b \<in> set (a # acts). f b \<le> f (py_max f a acts))
       \<and> (\<forall>b \<in> set (a # acts). f b = f (py_max f a acts) \<longrightarrow> py_max f a acts \<le> b)"
proof -
  let ?r = "py_max f a acts"
  note L = py_max_least_best[OF assms, of f]
  from L have 1: "?r \<in> set (a # acts)" by blast
  from L have 2: "f a \<le> f ?r" by blast
  from L have 3: "f a = f ?r \<longrightarrow> ?r = a" by blast
  from L have 4: "\<forall>b \<in> set acts. f b \<le> f ?r" by blast
  from L have 5: "\<forall>b \<in> set acts. f b = f ?r \<longrightarrow> ?r \<le> b" by blast
  have c2: "\<forall>b \<in> set (a # acts). f b \<le> f ?r" using 2 4 by (rule ball_Cons_bound)
  have c3: "\<forall>b \<in> set (a # acts). f b = f ?r \<longrightarrow> ?r \<le> b"
    using 3 5 by (rule ball_Cons_least[where P = "\<lambda>b. f b = f ?r"])
  from 1 c2 c3 show ?thesis by blast
qed

lemma available_nonempty_iff: "available_actions s = [] \<longleftrightarrow> CHR '' '' \<notin> set s"
proof -
  have "set (available_actions s) = {} \<longleftrightarrow> CHR '' '' \<notin> set s"
    unfolding set_available_actions by (auto simp: in_set_conv_nth)
  then show ?thesis by simp
qed

lemma random_choice_member: "fst (random_choice x xs g) \<in> set (x # xs)"
  unfolding random_choice_def fst_conv by (rule nth_mem) simp

text \<open>
  Claim C2. \<^const>\<open>choose_best_action\<close> returns \<open>None\<close> exactly when the state has no empty
  cell. When there are legal actions and the stored value of each is 0.0, it returns what
  \<^verbatim>\<open>random.choice\<close> draws from the list of legal actions: the item at the drawn position of
  a list that holds every legal action exactly once. Otherwise it returns, without touching the
  generator, the legal action of greatest stored value, the lowest one among equals. On the
  empty board with 0.9 stored for action 4 and 0.0 for every other action it returns 4.
  Uniformity is the library's: the model says which list is drawn from, not how.
\<close>

theorem choose_best_action_cases:
  "(fst (choose_best_action Q state g) = None \<longleftrightarrow> CHR '' '' \<notin> set state)
   \<and> (CHR '' '' \<in> set state \<and> (\<forall>a \<in> legal_actions state. get_q_value Q state a = 0.0) \<longrightarrow>
        choose_best_action Q state g
          = (Some (available_actions state ! (snd (shd g) mod length (available_actions state))),
             stl g)
        \<and> distinct (available_actions state)
        \<and> set (available_actions state) = legal_actions state
        \<and> (\<exists>c \<in> legal_actions state. fst (choose_best_action Q state g) = Some c))
   \<and> (CHR '' '' \<in> set state \<and> \<not> (\<forall>a \<in> legal_actions state. get_q_value Q state a = 0.0) \<longrightarrow>
        (\<exists>b \<in> legal_actions state. choose_best_action Q state g = (Some b, g)
           \<and> (\<forall>a \<in> legal_actions state. get_q_value Q state a \<le> get_q_value Q state b)
           \<and> (\<forall>a \<in> legal_actions state.
                 get_q_value Q state a = get_q_value Q state b \<longrightarrow> b \<le> a)))
   \<and> (get_q_value Q ''         '' 4 = 0.9
        \<and> (\<forall>a \<in> legal_actions ''         ''. a \<noteq> 4 \<longrightarrow> get_q_value Q ''         '' a = 0.0)
        \<longrightarrow> choose_best_action Q ''         '' g = (Some 4, g))"
proof -
  have none: "fst (choose_best_action Q state g) = None \<longleftrightarrow> CHR '' '' \<notin> set state"
    unfolding available_nonempty_iff[symmetric]
    by (simp add: choose_best_action_def Let_def random_choice_def split: list.splits)
  have zero: "choose_best_action Q state g
          = (Some (available_actions state ! (snd (shd g) mod length (available_actions state))),
             stl g)
        \<and> distinct (available_actions state)
        \<and> set (available_actions state) = legal_actions state
        \<and> (\<exists>c \<in> legal_actions state. fst (choose_best_action Q state g) = Some c)"
    if e: "CHR '' '' \<in> set state" and z: "\<forall>a \<in> legal_actions state. get_q_value Q state a = 0.0"
  proof -
    from e obtain a acts where av: "available_actions state = a # acts"
      using available_nonempty_iff[of state] by (cases "available_actions state") auto
    from z have all: "list_all (\<lambda>qv. fst qv = 0.0) (map (\<lambda>a. (get_q_value Q state a, a)) (a # acts))"
      unfolding legal_actions_available av by (simp add: list_all_iff)
    have c: "choose_best_action Q state g = (Some (fst (random_choice a acts g)), stl g)"
      using all by (simp add: choose_best_action_def av random_choice_def)
    have m: "fst (random_choice a acts g) \<in> legal_actions state"
      unfolding legal_actions_available av by (rule random_choice_member)
    from c m show ?thesis
      by (auto simp: av[symmetric] random_choice_def distinct_available_actions
           legal_actions_available)
  qed
  have best: "\<exists>b \<in> legal_actions state. choose_best_action Q state g = (Some b, g)
           \<and> (\<forall>a \<in> legal_actions state. get_q_value Q state a \<le> get_q_value Q state b)
           \<and> (\<forall>a \<in> legal_actions state.
                 get_q_value Q state a = get_q_value Q state b \<longrightarrow> b \<le> a)"
    if e: "CHR '' '' \<in> set state" and z: "\<not> (\<forall>a \<in> legal_actions state. get_q_value Q state a = 0.0)"
  proof -
    from e obtain a acts where av: "available_actions state = a # acts"
      using available_nonempty_iff[of state] by (cases "available_actions state") auto
    let ?f = "\<lambda>a. get_q_value Q state a"
    let ?r = "py_max ?f a acts"
    from z have all': "\<not> list_all (\<lambda>qv. fst qv = 0.0) ((?f a, a) # map (\<lambda>a. (?f a, a)) acts)"
      unfolding legal_actions_available av by (simp add: list_all_iff)
    have "choose_best_action Q state g
            = (Some (snd (py_max (\<lambda>x. fst x) (?f a, a) (map (\<lambda>a. (?f a, a)) acts))), g)"
      by (simp only: choose_best_action_def Let_def av list.case list.map if_not_P[OF all'] list.sel)
    then have c: "choose_best_action Q state g = (Some ?r, g)"
      unfolding py_max_pairs by simp
    have s: "sorted (a # acts)" using sorted_available_actions[of state] unfolding av .
    note py_max_sorted[OF s, of ?f]
    with c show ?thesis unfolding legal_actions_available av by blast
  qed
  have four: "choose_best_action Q ''         '' g = (Some 4, g)"
    if v: "get_q_value Q ''         '' 4 = 0.9"
      and o: "\<forall>a \<in> legal_actions ''         ''. a \<noteq> 4 \<longrightarrow> get_q_value Q ''         '' a = 0.0"
  proof -
    have l: "legal_actions ''         '' = {0,1,2,3,4,5,6,7,8}"
      unfolding legal_actions_available by (simp add: available_actions_def)
    from o have "\<forall>a \<in> {0,1,2,3,5,6,7,8}. get_q_value Q ''         '' a = 0" unfolding l by simp
    with v show ?thesis
      by (simp add: choose_best_action_def available_actions_def)
  qed
  from none zero best four show ?thesis by blast
qed

theorem choose_best_action_cases_witness:
  "choose_best_action [((''         '', 4), 0.9)] ''         '' (sconst (0, 0))
     = (Some 4, sconst (0, 0))
   \<and> choose_best_action [] ''XO XO OX '' (sconst (0, 7)) = (Some 5, sconst (0, 7))
   \<and> fst (choose_best_action [] ''XOXOXOXOX'' (sconst (0, 0))) = None"
proof -
  let ?Q = "[((''         '', 4), 0.9)] :: real q_table"
  let ?g = "sconst (0, 0) :: rng"
  have l: "legal_actions ''         '' = {0,1,2,3,4,5,6,7,8}"
    unfolding legal_actions_available by (simp add: available_actions_def)
  have a: "get_q_value ?Q ''         '' 4 = 0.9
        \<and> (\<forall>a \<in> legal_actions ''         ''. a \<noteq> 4 \<longrightarrow> get_q_value ?Q ''         '' a = 0.0)"
    unfolding l by (simp add: get_q_value_def)
  have first: "choose_best_action ?Q ''         '' ?g = (Some 4, ?g)"
    using choose_best_action_cases[of ?Q "''         ''" ?g, THEN conjunct2, THEN conjunct2,
        THEN conjunct2] a
    by (rule mp)
  have av: "available_actions ''XO XO OX '' = [2, 5, 8]"
    by (simp add: available_actions_def)
  have b: "CHR '' '' \<in> set ''XO XO OX ''
        \<and> (\<forall>a \<in> legal_actions ''XO XO OX ''. get_q_value [] ''XO XO OX '' a = 0.0)"
    by (simp add: get_q_value_def)
  let ?h = "sconst (0, 7) :: rng"
  have "choose_best_action [] ''XO XO OX '' ?h
          = (Some (available_actions ''XO XO OX '' ! (snd (shd ?h) mod length (available_actions ''XO XO OX ''))),
             stl ?h)"
    using choose_best_action_cases[of "[]" "''XO XO OX ''" ?h, THEN conjunct2,
        THEN conjunct1, THEN mp, OF b]
    by (rule conjunct1)
  then have second: "choose_best_action [] ''XO XO OX '' (sconst (0, 7)) = (Some 5, sconst (0, 7))"
    by (simp add: av)
  have third: "fst (choose_best_action [] ''XOXOXOXOX'' ?g) = None"
    using choose_best_action_cases[of "[]" "''XOXOXOXOX''" ?g, THEN conjunct1] by simp
  from first second third show ?thesis by blast
qed

section \<open>One game of self-play: properties\<close>

lemma py_max_mem: "py_max key m xs \<in> set (m # xs)"
  by (induction xs arbitrary: m) auto

lemma epsilon_greedy_None:
  "available_actions s = [] \<Longrightarrow> epsilon_greedy_action Q s eps g = (None, g)"
  by (simp add: epsilon_greedy_action_def)

lemma epsilon_greedy_Some:
  assumes "available_actions s = a # acts"
  shows "\<exists>c g1. epsilon_greedy_action Q s eps g = (Some c, g1) \<and> c \<in> set (a # acts)"
proof (cases "fst (shd g) < eps")
  case True
  then have "epsilon_greedy_action Q s eps g
               = (Some (fst (random_choice a acts (stl g))), snd (random_choice a acts (stl g)))"
    by (simp add: epsilon_greedy_action_def assms random_random_def split: prod.splits)
  with random_choice_member[of a acts "stl g"] show ?thesis by blast
next
  case False
  then have "epsilon_greedy_action Q s eps g
               = (Some (py_max (\<lambda>a. get_q_value Q s a) a acts), stl g)"
    by (simp add: epsilon_greedy_action_def assms random_random_def best_action_def)
  with py_max_mem[of "\<lambda>a. get_q_value Q s a" a acts] show ?thesis by blast
qed

lemma available_member:
  assumes "c \<in> set (available_actions s)"
  shows "0 \<le> c \<and> nat c < length s \<and> s ! nat c = CHR '' ''"
  using assms unfolding set_available_actions by auto

lemma empty_cells_update:
  assumes "i < length s" "s ! i = CHR '' ''" "ch \<noteq> CHR '' ''"
  shows "Suc (empty_cells (s[i := ch])) = empty_cells s"
  using assms unfolding empty_cells_def
proof (induction s arbitrary: i)
  case Nil
  then show ?case by simp
next
  case (Cons x xs)
  show ?case
  proof (cases i)
    case 0
    with Cons.prems show ?thesis by simp
  next
    case (Suc j)
    with Cons.prems have "j < length xs" "xs ! j = CHR '' ''" by simp_all
    from Cons.IH[OF this Cons.prems(3)] Suc show ?thesis by simp
  qed
qed

lemma empty_cells_pos: "0 < empty_cells s \<longleftrightarrow> \<not> is_draw s"
  unfolding empty_cells_def is_draw_def by (simp add: filter_empty_conv)

lemma update_last_ok:
  assumes "map_of ls k \<noteq> None" "map_of la k \<noteq> None"
    "map_of ls k = Some None \<or> map_of la k \<noteq> Some None"
  shows "\<exists>Q'. update_last Q ls la k r s' = Inr Q'"
proof -
  from assms(1) obtain v where v: "map_of ls k = Some v" by blast
  from assms(2) obtain w where w: "map_of la k = Some w" by blast
  show ?thesis
  proof (cases v)
    case None
    with v show ?thesis by (simp add: update_last_def dict_get_def)
  next
    case (Some s)
    with v assms(3) w obtain a where "w = Some a" by (cases w) auto
    with v w Some show ?thesis by (simp add: update_last_def dict_get_def)
  qed
qed

lemma game_ok_dicts:
  assumes "game_ok g" "k = ''X'' \<or> k = ''O''"
  shows "map_of (last_state g) k \<noteq> None" "map_of (last_action g) k \<noteq> None"
    "map_of (last_state g) k = Some None \<or> map_of (last_action g) k \<noteq> Some None"
  using assms unfolding game_ok_def by auto

lemma game_ok_new: "game_ok (new_game Q g)"
  by (simp add: game_ok_def new_game_def initial_state_def)

lemma game_step_no_move:
  assumes "available_actions (board g) = []"
  shows "game_step eps g = Inr (Return 0 (table g) (gen g))"
  by (simp add: game_step_def epsilon_greedy_None[OF assms])

lemma game_step_move:
  assumes ok: "game_ok g" and av: "available_actions (board g) \<noteq> []"
  shows "(\<exists>r Q' g'. game_step eps g = Inr (Return r Q' g') \<and> (r = 1 \<or> r = - 1 \<or> r = 0))
       \<or> (\<exists>g'. game_step eps g = Inr (Continue g') \<and> game_ok g'
              \<and> 0 < empty_cells (board g') \<and> Suc (empty_cells (board g')) = empty_cells (board g))"
proof -
  let ?b = "board g" and ?cur = "current_symbol g" and ?oth = "other_symbol g"
  from av obtain a acts where al: "available_actions ?b = a # acts"
    by (cases "available_actions ?b") auto
  from epsilon_greedy_Some[OF al, of "table g" eps "gen g"]
  obtain c g1 where eg: "epsilon_greedy_action (table g) ?b eps (gen g) = (Some c, g1)"
    and cm: "c \<in> set (available_actions ?b)" unfolding al by blast
  from available_member[OF cm] have c0: "0 \<le> c" and cl: "nat c < length ?b"
    and ce: "?b ! nat c = CHR '' ''" by simp_all
  from ok have len: "length ?b = 9" and cur: "?cur = ''X'' \<or> ?cur = ''O''"
    and oth: "?oth = ''X'' \<or> ?oth = ''O''" unfolding game_ok_def by simp_all
  from cur obtain ch where ch: "?cur = [ch]" "ch \<noteq> CHR '' ''" by auto
  let ?s = "?b[nat c := ch]"
  have ns: "next_state ?b c ?cur = Inr ?s"
    unfolding ch(1) using c0 cl by (rule next_state_in_range)
  have ls: "length ?s = 9" using len by simp
  from update_last_ok[OF game_ok_dicts[OF ok cur], of "table g" 0 ?b]
  obtain Q1 where u1: "update_last (table g) (last_state g) (last_action g) ?cur 0 ?b = Inr Q1"
    by blast
  obtain w where cw: "check_winner ?s ?cur = Inr w"
    using check_winner_nine[OF ls, of ?cur] by blast
  have ec: "Suc (empty_cells ?s) = empty_cells ?b"
    using cl ce ch(2) by (rule empty_cells_update)
  show ?thesis
  proof (cases w)
    case True
    let ?Q2 = "update_q_value Q1 ?b c REWARD_WIN ?s"
    from update_last_ok[OF game_ok_dicts[OF ok oth], of ?Q2 REWARD_LOSE ?b]
    obtain Q3 where u3: "update_last ?Q2 (last_state g) (last_action g) ?oth REWARD_LOSE ?b = Inr Q3"
      by blast
    have "game_step eps g = Inr (Return (if ?cur = ''X'' then 1 else - 1) Q3 g1)"
      using True by (simp add: game_step_def eg ns u1 cw u3 Let_def split del: if_split)
    then show ?thesis by auto
  next
    case False
    show ?thesis
    proof (cases "is_draw ?s")
      case True
      have "game_step eps g = Inr (Return 0 (update_q_value Q1 ?b c REWARD_DRAW ?s) g1)"
        using False True by (simp add: game_step_def eg ns u1 cw Let_def split del: if_split)
      then show ?thesis by auto
    next
      case nd: False
      let ?g' = "\<lparr>table = Q1, gen = g1, board = ?s, current_symbol = ?oth, other_symbol = ?cur,
                  last_state = AList.update ?cur (Some ?b) (last_state g),
                  last_action = AList.update ?cur (Some c) (last_action g)\<rparr>"
      have st: "game_step eps g = Inr (Continue ?g')"
        using False nd by (simp add: game_step_def eg ns u1 cw Let_def split del: if_split)
      have d: "map_of (last_state ?g') k \<noteq> None \<and> map_of (last_action ?g') k \<noteq> None
               \<and> (map_of (last_state ?g') k = Some None \<or> map_of (last_action ?g') k \<noteq> Some None)"
        if k: "k = ''X'' \<or> k = ''O''" for k
        using game_ok_dicts[OF ok k] by (simp add: update_conv')
      have ok': "game_ok ?g'"
        unfolding game_ok_def using ls cur oth d[of "''X''"] d[of "''O''"] by simp
      have pos: "0 < empty_cells (board ?g')" using nd by (simp add: empty_cells_pos)
      have "Suc (empty_cells (board ?g')) = empty_cells ?b" using ec by simp
      with st ok' pos show ?thesis by blast
    qed
  qed
qed

lemma game_step_cases:
  assumes "game_ok g"
  shows "(\<exists>r Q' g'. game_step eps g = Inr (Return r Q' g') \<and> (r = 1 \<or> r = - 1 \<or> r = 0))
       \<or> (\<exists>g'. game_step eps g = Inr (Continue g') \<and> game_ok g'
              \<and> 0 < empty_cells (board g') \<and> Suc (empty_cells (board g')) = empty_cells (board g))"
proof (cases "available_actions (board g) = []")
  case True
  from game_step_no_move[OF True, of eps] show ?thesis by blast
next
  case False
  with assms show ?thesis by (rule game_step_move)
qed

lemma play_loop_returns:
  assumes "game_ok g" "empty_cells (board g) \<le> n" "0 < n"
  shows "\<exists>r Q' g'. play_loop n eps g = Some (Inr (r, Q', g')) \<and> (r = 1 \<or> r = - 1 \<or> r = 0)"
  using assms
proof (induction n arbitrary: g)
  case 0
  then show ?case by simp
next
  case (Suc n)
  from game_step_cases[OF Suc.prems(1), of eps] show ?case
  proof
    assume "\<exists>r Q' g'. game_step eps g = Inr (Return r Q' g') \<and> (r = 1 \<or> r = - 1 \<or> r = 0)"
    then obtain r Q' g' where "game_step eps g = Inr (Return r Q' g')" "r = 1 \<or> r = - 1 \<or> r = 0"
      by blast
    then show ?thesis by simp
  next
    assume "\<exists>g'. game_step eps g = Inr (Continue g') \<and> game_ok g'
              \<and> 0 < empty_cells (board g') \<and> Suc (empty_cells (board g')) = empty_cells (board g)"
    then obtain g' where s: "game_step eps g = Inr (Continue g')" and ok: "game_ok g'"
      and pos: "0 < empty_cells (board g')"
      and dec: "Suc (empty_cells (board g')) = empty_cells (board g)" by blast
    from dec Suc.prems(2) have le: "empty_cells (board g') \<le> n" by simp
    with pos have n: "0 < n" by simp
    from Suc.IH[OF ok le n] s show ?thesis by simp
  qed
qed

lemma play_one_game_returns:
  assumes "9 \<le> fuel"
  shows "\<exists>r Q' g'. play_one_game fuel eps Q g = Some (Inr (r, Q', g')) \<and> (r = 1 \<or> r = - 1 \<or> r = 0)"
  unfolding play_one_game_def
proof (rule play_loop_returns[OF game_ok_new])
  show "empty_cells (board (new_game Q g)) \<le> fuel"
    using assms by (simp add: new_game_def initial_state_def empty_cells_def)
  show "0 < fuel" using assms by simp
qed

lemma reaches_ok:
  assumes "reaches eps g0 g" "game_ok g0"
  shows "game_ok g"
  using assms
proof (induction rule: reaches.induct)
  case start
  then show ?case .
next
  case (pass g g')
  from game_step_cases[OF pass.IH[OF pass.prems], of eps] pass.hyps(2) show ?case by auto
qed

text \<open>
  Claim C9. For every exploration rate, table and run of the random generator,
  \<^const>\<open>play_one_game\<close> returns: nine passes of the loop are enough, and the result is 1 (X
  wins), -1 (O wins) or 0 (draw). Every pass of a game that goes on to another pass leaves
  strictly fewer empty cells on the board.
\<close>

theorem play_one_game_terminates:
  "(9 \<le> fuel \<longrightarrow>
      (\<exists>r Q' g'. play_one_game fuel eps Q g = Some (Inr (r, Q', g'))
         \<and> (r = 1 \<or> r = - 1 \<or> r = 0)))
   \<and> (reaches eps (new_game Q g) st \<and> game_step eps st = Inr (Continue st') \<longrightarrow>
        empty_cells (board st') < empty_cells (board st))"
proof (intro conjI impI)
  assume "9 \<le> fuel"
  then show "\<exists>r Q' g'. play_one_game fuel eps Q g = Some (Inr (r, Q', g'))
         \<and> (r = 1 \<or> r = - 1 \<or> r = 0)"
    by (rule play_one_game_returns)
next
  assume a: "reaches eps (new_game Q g) st \<and> game_step eps st = Inr (Continue st')"
  then have "game_ok st" using reaches_ok game_ok_new by blast
  from game_step_cases[OF this, of eps] a
  show "empty_cells (board st') < empty_cells (board st)" by auto
qed

lemma first_pass:
  "game_step 1 (new_game [] (sconst (0, 0)))
     = Inr (Continue \<lparr>table = [], gen = sconst (0, 0), board = ''X        '',
                      current_symbol = ''O'', other_symbol = ''X'',
                      last_state = [(''X'', Some ''         ''), (''O'', None)],
                      last_action = [(''X'', Some 0), (''O'', None)]\<rparr>)"
  by (simp add: game_step_def new_game_def initial_state_def epsilon_greedy_action_def
        available_actions_def random_random_def random_choice_def next_state_def
        update_last_def dict_get_def check_winner_def wins_def line_filled_def getitem_def
        is_draw_def Let_def)

lemma full_game:
  "\<exists>Q' g'. play_one_game 9 1 [] (sconst (0, 0)) = Some (Inr (1, Q', g'))"
  by (simp add: play_one_game_def eval_nat_numeral game_step_def new_game_def initial_state_def epsilon_greedy_action_def
        available_actions_def random_random_def random_choice_def next_state_def
        update_last_def dict_get_def check_winner_def wins_def line_filled_def getitem_def
        is_draw_def Let_def)

theorem play_one_game_terminates_witness:
  "(9::nat) \<le> 9
   \<and> (\<exists>r Q' g'. play_one_game 9 1 [] (sconst (0, 0)) = Some (Inr (r, Q', g'))
         \<and> (r = 1 \<or> r = - 1 \<or> r = 0))
   \<and> (\<exists>Q' g'. play_one_game 9 1 [] (sconst (0, 0)) = Some (Inr (1, Q', g')))
   \<and> reaches 1 (new_game [] (sconst (0, 0))) (new_game [] (sconst (0, 0)))
   \<and> empty_cells ''X        '' < empty_cells ''         ''"
proof -
  let ?g0 = "new_game [] (sconst (0, 0))"
  let ?g1 = "\<lparr>table = [], gen = sconst (0, 0), board = ''X        '',
                      current_symbol = ''O'', other_symbol = ''X'',
                      last_state = [(''X'', Some ''         ''), (''O'', None)],
                      last_action = [(''X'', Some 0), (''O'', None)]\<rparr>"
  note T = play_one_game_terminates[of 9 1 "[]" "sconst (0, 0)" ?g0 ?g1]
  have r: "reaches 1 ?g0 ?g0" by (rule reaches.start)
  from T have a: "\<exists>r Q' g'. play_one_game 9 1 [] (sconst (0, 0)) = Some (Inr (r, Q', g'))
         \<and> (r = 1 \<or> r = - 1 \<or> r = 0)" by simp
  from T r first_pass have "empty_cells (board ?g1) < empty_cells (board ?g0)" by blast
  then have b: "empty_cells ''X        '' < empty_cells ''         ''"
    by (simp add: new_game_def initial_state_def)
  from a full_game r b show ?thesis by simp
qed

section \<open>The training run: properties\<close>

lemma decay_eq: "decay = (EPSILON_END / EPSILON_START) powr (1 / real EPISODES)"
  by (simp add: decay_def EPSILON_START_def)

lemma decay_bounds: "0 < decay \<and> decay \<le> 1"
proof -
  have "(EPSILON_END / EPSILON_START) powr (1 / real EPISODES) \<le> 1"
    by (rule powr_le1) (simp_all add: EPSILON_END_def EPSILON_START_def)
  moreover have "0 < (EPSILON_END / EPSILON_START) powr (1 / real EPISODES)"
    by (simp add: EPSILON_END_def EPSILON_START_def)
  ultimately show ?thesis unfolding decay_eq by simp
qed

lemma epsilon_schedule_lower: "EPSILON_END \<le> epsilon_schedule n"
  by (cases n) (simp_all add: EPSILON_END_def EPSILON_START_def)

lemma epsilon_schedule_decreasing: "epsilon_schedule (Suc n) \<le> epsilon_schedule n"
proof -
  have nonneg: "0 \<le> epsilon_schedule n"
    using epsilon_schedule_lower[of n] by (simp add: EPSILON_END_def)
  from decay_bounds have "epsilon_schedule n * decay \<le> epsilon_schedule n * 1"
    using nonneg by (intro mult_left_mono) simp_all
  then have "epsilon_schedule n * decay \<le> epsilon_schedule n" by simp
  with epsilon_schedule_lower[of n] show ?thesis
    unfolding epsilon_schedule.simps decay_eq[symmetric] by simp
qed

text \<open>
  Rounding. Python computes the schedule in binary floating point, which this theory models by
  the reals. Both properties of the schedule survive rounding: under any rounding that is
  monotone and fixes the numbers it produces, one step from a representable epsilon with a
  decay factor of at most 1 gives a representable value that is not above epsilon and not
  below the lower end.
\<close>

lemma rounded_step:
  fixes rnd :: "real \<Rightarrow> real" and e d lo :: real
  assumes mono: "\<And>x y. x \<le> y \<Longrightarrow> rnd x \<le> rnd y"
    and fixed: "rnd e = e" "rnd lo = lo"
    and idem: "\<And>x. rnd (rnd x) = rnd x"
    and e: "lo \<le> e" "0 \<le> e" and d: "d \<le> 1"
  shows "max lo (rnd (e * d)) \<le> e \<and> lo \<le> max lo (rnd (e * d))
         \<and> rnd (max lo (rnd (e * d))) = max lo (rnd (e * d))"
proof -
  from e(2) d have "e * d \<le> e * 1" by (intro mult_left_mono)
  then have "rnd (e * d) \<le> rnd e" by (intro mono) simp
  then have le: "rnd (e * d) \<le> e" unfolding fixed(1) .
  have "rnd (max lo (rnd (e * d))) = max lo (rnd (e * d))"
    by (cases "lo \<le> rnd (e * d)") (simp_all add: max_def fixed(2) idem)
  with le e(1) show ?thesis by simp
qed

lemma episode_returns:
  assumes "9 \<le> fuel"
  shows "\<exists>t'. episode fuel t = Some (Inr t')
           \<and> epsilon t' = max EPSILON_END (epsilon t * decay)"
proof -
  from play_one_game_returns[OF assms, of "epsilon t" "q t" "generator t"]
  obtain r Q' g' where "play_one_game fuel (epsilon t) (q t) (generator t) = Some (Inr (r, Q', g'))"
    by blast
  then show ?thesis by (simp add: episode_def)
qed

lemma run_episodes_epsilon:
  assumes "9 \<le> fuel"
  shows "\<exists>t'. run_episodes fuel n t = Some (Inr t')
           \<and> epsilon t' = ((\<lambda>e. max EPSILON_END (e * decay)) ^^ n) (epsilon t)"
proof (induction n arbitrary: t)
  case 0
  show ?case by simp
next
  case (Suc n)
  from episode_returns[OF assms, of t] obtain t1 where
    e: "episode fuel t = Some (Inr t1)" and v: "epsilon t1 = max EPSILON_END (epsilon t * decay)"
    by blast
  from Suc.IH[of t1] obtain t' where
    r: "run_episodes fuel n t1 = Some (Inr t')"
    and w: "epsilon t' = ((\<lambda>e. max EPSILON_END (e * decay)) ^^ n) (epsilon t1)" by blast
  have "run_episodes fuel (Suc n) t = Some (Inr t')" using e r by simp
  moreover have "epsilon t' = ((\<lambda>e. max EPSILON_END (e * decay)) ^^ Suc n) (epsilon t)"
    unfolding w v by (simp only: funpow_Suc_right o_apply)
  ultimately show ?case by blast
qed

lemma epsilon_schedule_funpow:
  "epsilon_schedule n = ((\<lambda>e. max EPSILON_END (e * decay)) ^^ n) EPSILON_START"
  by (induction n) (simp_all add: decay_eq)

text \<open>
  Claim C4. With \<open>EPISODES = 20000\<close>, \<open>EPSILON_START = 1.0\<close> and \<open>EPSILON_END = 0.01\<close>: the
  training loop never fails, and after \<open>n\<close> episodes its variable epsilon holds
  \<open>epsilon_schedule n\<close>, the value that starts at \<open>EPSILON_START\<close> and is updated after each
  episode to \<open>max(EPSILON_END, epsilon * decay)\<close>; this is the value that the next episode
  passes to \<^const>\<open>play_one_game\<close>. The values never increase from one episode to the next and
  never drop below \<open>EPSILON_END\<close>. Proved for every number of episodes, 20000 among them.
\<close>

theorem epsilon_decay_schedule:
  "(9 \<le> fuel \<longrightarrow>
      (\<exists>t. run_episodes fuel n (start_training Q g) = Some (Inr t)
          \<and> epsilon t = epsilon_schedule n))
   \<and> epsilon_schedule (Suc n) \<le> epsilon_schedule n
   \<and> EPSILON_END \<le> epsilon_schedule n
   \<and> EPISODES = 20000 \<and> EPSILON_START = 1.0 \<and> EPSILON_END = 0.01"
proof -
  have "\<exists>t. run_episodes fuel n (start_training Q g) = Some (Inr t)
          \<and> epsilon t = epsilon_schedule n" if "9 \<le> fuel"
    using run_episodes_epsilon[OF that, of n "start_training Q g"]
    unfolding epsilon_schedule_funpow by (simp add: start_training_def)
  then show ?thesis
    using epsilon_schedule_decreasing[of n] epsilon_schedule_lower[of n]
    by (simp add: EPISODES_def EPSILON_START_def EPSILON_END_def)
qed

theorem epsilon_decay_schedule_witness:
  "(9::nat) \<le> 9
   \<and> (\<exists>t. run_episodes 9 2 (start_training [] (sconst (0, 0))) = Some (Inr t)
          \<and> epsilon t = epsilon_schedule 2)
   \<and> epsilon_schedule 0 = 1
   \<and> epsilon_schedule (Suc 0) \<le> epsilon_schedule 0
   \<and> EPSILON_END \<le> epsilon_schedule (Suc 0)"
proof -
  note A = epsilon_decay_schedule[of 9 2 "[]" "sconst (0, 0)"]
  note B = epsilon_decay_schedule[of 9 0 "[]" "sconst (0, 0)"]
  note C = epsilon_decay_schedule[of 9 "Suc 0" "[]" "sconst (0, 0)"]
  have e: "(9::nat) \<le> 9" by simp
  from A[THEN conjunct1] e
  have a: "\<exists>t. run_episodes 9 2 (start_training [] (sconst (0, 0))) = Some (Inr t)
          \<and> epsilon t = epsilon_schedule 2" by (rule mp)
  have b: "epsilon_schedule (Suc 0) \<le> epsilon_schedule 0"
    by (rule B[THEN conjunct2, THEN conjunct1])
  have c: "EPSILON_END \<le> epsilon_schedule (Suc 0)"
    by (rule C[THEN conjunct2, THEN conjunct2, THEN conjunct1])
  have d: "epsilon_schedule 0 = 1" by (simp add: EPSILON_START_def)
  from e a d b c show ?thesis by blast
qed

section \<open>Persistence: properties\<close>

lemma is_digit_digit_char: "d < 10 \<Longrightarrow> is_digit (digit_char d)"
  by (simp add: is_digit_def digit_char_def)

lemma digit_value_digit_char: "d < 10 \<Longrightarrow> digit_value (digit_char d) = d"
  by (simp add: digit_value_def digit_char_def)

lemma digit_not_space: "is_digit c \<Longrightarrow> \<not> is_space c"
  by (auto simp: is_digit_def is_space_def)

lemma digit_not_sign: "is_digit c \<Longrightarrow> c \<noteq> CHR ''-'' \<and> c \<noteq> CHR ''+''"
  by (auto simp: is_digit_def)

lemma digits_all: "digits n \<noteq> [] \<and> list_all is_digit (digits n)"
proof (induction n rule: digits.induct)
  case (1 n)
  show ?case
  proof (cases "n < 10")
    case True
    then show ?thesis by (simp add: digits.simps[of n] is_digit_digit_char)
  next
    case False
    with 1 have "list_all is_digit (digits (n div 10))" by simp
    moreover have "is_digit (digit_char (n mod 10))" by (rule is_digit_digit_char) simp
    ultimately show ?thesis using False by (simp add: digits.simps[of n])
  qed
qed

lemma digits_value_all:
  "list_all is_digit ds \<Longrightarrow>
     digits_value acc ds = Some (foldl (\<lambda>a c. 10 * a + digit_value c) acc ds)"
  by (induction acc ds rule: digits_value.induct) simp_all

lemma foldl_digits: "foldl (\<lambda>a c. 10 * a + digit_value c) 0 (digits n) = n"
proof (induction n rule: digits.induct)
  case (1 n)
  show ?case
  proof (cases "n < 10")
    case True
    then show ?thesis by (simp add: digits.simps[of n] digit_value_digit_char)
  next
    case False
    with 1 have "foldl (\<lambda>a c. 10 * a + digit_value c) 0 (digits (n div 10)) = n div 10" by simp
    then show ?thesis using False
      by (simp add: digits.simps[of n] digit_value_digit_char)
  qed
qed

lemma parse_digits_digits: "parse_digits (digits n) = Some n"
proof -
  from digits_all[of n] obtain c cs where d: "digits n = c # cs" and c: "is_digit c"
    and cs: "list_all is_digit cs" by (cases "digits n") auto
  have "digits_value (digit_value c) cs = Some (foldl (\<lambda>a c. 10 * a + digit_value c) 0 (c # cs))"
    using digits_value_all[OF cs, of "digit_value c"] by simp
  also have "\<dots> = Some n" using foldl_digits[of n] unfolding d by simp
  finally show ?thesis using c by (simp add: parse_digits_def d)
qed

lemma strip_id:
  assumes "xs \<noteq> []" "\<not> is_space (hd xs)" "\<not> is_space (last xs)"
  shows "strip xs = xs"
proof -
  from assms(1,2) have a: "dropWhile is_space xs = xs" by (cases xs) simp_all
  from assms(1,3) have b: "dropWhile is_space (rev xs) = rev xs"
    by (cases "rev xs") (simp_all add: last_rev[symmetric] del: last_rev)
  show ?thesis by (simp add: strip_def a b)
qed

lemma digits_ends: "\<not> is_space (hd (digits n)) \<and> \<not> is_space (last (digits n))"
proof -
  from digits_all[of n] have ne: "digits n \<noteq> []" and all: "list_all is_digit (digits n)"
    by simp_all
  from ne have "hd (digits n) \<in> set (digits n)" "last (digits n) \<in> set (digits n)" by simp_all
  with all have "is_digit (hd (digits n))" "is_digit (last (digits n))"
    by (simp_all add: list_all_iff)
  then show ?thesis by (simp add: digit_not_space)
qed

lemma py_int_py_str: "py_int (py_str a) = Inr a"
proof (cases "a < 0")
  case True
  let ?ds = "digits (nat (- a))"
  have ne: "?ds \<noteq> []" using digits_all by blast
  have "\<not> is_space (CHR ''-'')" by (simp add: is_space_def)
  moreover have "\<not> is_space (last (CHR ''-'' # ?ds))" using digits_ends[of "nat (- a)"] ne by simp
  ultimately have s: "strip (CHR ''-'' # ?ds) = CHR ''-'' # ?ds" by (intro strip_id) simp_all
  show ?thesis using True by (simp add: py_int_def py_str_def s parse_digits_digits)
next
  case False
  let ?ds = "digits (nat a)"
  from digits_all[of "nat a"] obtain c cs where d: "?ds = c # cs" and c: "is_digit c"
    by (cases ?ds) auto
  have s: "strip ?ds = ?ds" using digits_ends[of "nat a"] digits_all[of "nat a"]
    by (intro strip_id) simp_all
  have p: "parse_digits (c # cs) = Some (nat a)" using parse_digits_digits[of "nat a"] unfolding d .
  show ?thesis using False digit_not_sign[OF c]
    by (simp add: py_int_def py_str_def s[unfolded d] d p)
qed

lemma py_str_inj: "py_str a = py_str b \<Longrightarrow> a = b"
proof -
  assume "py_str a = py_str b"
  then have "py_int (py_str a) = py_int (py_str b)" by simp
  then show "a = b" by (simp add: py_int_py_str)
qed

lemma py_int_error: "py_int s = Inl e \<Longrightarrow> e = ValueError"
  by (auto simp: py_int_def split: list.splits option.splits if_splits)

lemma py_str_small:
  "map py_str [0..8] = [''0'', ''1'', ''2'', ''3'', ''4'', ''5'', ''6'', ''7'', ''8'']"
  by (simp add: py_str_def digits.simps digit_char_def upto.simps char_of_def bit_0)

lemma load_actions_fails:
  "isl (load_actions state d Q) \<longleftrightarrow> \<not> list_all (\<lambda>(action_str, x). \<not> isl (py_int action_str)) d"
proof (induction d arbitrary: Q)
  case Nil
  show ?case by simp
next
  case (Cons p d)
  obtain k x where p: "p = (k, x)" by (cases p)
  show ?case
  proof (cases "py_int k")
    case (Inl e)
    then show ?thesis by (simp add: p)
  next
    case (Inr a)
    then show ?thesis by (simp add: p Cons.IH)
  qed
qed

lemma load_actions_error: "load_actions state d Q = Inl e \<Longrightarrow> e = ValueError"
proof (induction d arbitrary: Q)
  case Nil
  then show ?case by simp
next
  case (Cons p d)
  obtain k x where p: "p = (k, x)" by (cases p)
  show ?case
  proof (cases "py_int k")
    case (Inl e')
    with Cons.prems p have "e = e'" by simp
    with Inl show ?thesis by (simp add: py_int_error)
  next
    case (Inr a)
    with Cons.prems p have "load_actions state d (AList.update (state, a) x Q) = Inl e" by simp
    then show ?thesis by (rule Cons.IH)
  qed
qed

lemma items_cases:
  "(\<exists>d. v = JObject d \<and> items v = Inr d) \<or> ((\<forall>d. v \<noteq> JObject d) \<and> items v = Inl AttributeError)"
  by (cases v) (simp_all add: items_def)

lemma load_states_fails:
  "isl (load_states kvs Q) \<longleftrightarrow> \<not> list_all actions_ok kvs"
proof (induction kvs arbitrary: Q)
  case Nil
  show ?case by simp
next
  case (Cons p kvs)
  obtain s v where p: "p = (s, v)" by (cases p)
  from items_cases[of v] show ?case
  proof
    assume "\<exists>d. v = JObject d \<and> items v = Inr d"
    then obtain d where v: "v = JObject d" and i: "items v = Inr d" by blast
    show ?thesis
    proof (cases "load_actions s d Q")
      case (Inl e)
      then have "isl (load_actions s d Q)" by simp
      then have "\<not> actions_ok (s, v)" unfolding load_actions_fails by (simp add: actions_ok_def v)
      with Inl i show ?thesis by (simp add: p)
    next
      case (Inr Q')
      then have "\<not> isl (load_actions s d Q)" by simp
      then have "actions_ok (s, v)" unfolding load_actions_fails by (simp add: actions_ok_def v)
      with Inr i show ?thesis by (simp add: p Cons.IH)
    qed
  next
    assume a: "(\<forall>d. v \<noteq> JObject d) \<and> items v = Inl AttributeError"
    then have "\<not> actions_ok (s, v)" by (cases v) (simp_all add: actions_ok_def)
    with a show ?thesis by (simp add: p)
  qed
qed

lemma load_states_error:
  "load_states kvs Q = Inl e \<Longrightarrow> e = AttributeError \<or> e = ValueError"
proof (induction kvs arbitrary: Q)
  case Nil
  then show ?case by simp
next
  case (Cons p kvs)
  obtain s v where p: "p = (s, v)" by (cases p)
  from items_cases[of v] show ?case
  proof
    assume "\<exists>d. v = JObject d \<and> items v = Inr d"
    then obtain d where i: "items v = Inr d" by blast
    show ?thesis
    proof (cases "load_actions s d Q")
      case (Inl e')
      with Cons.prems i p have "e = e'" by simp
      with Inl load_actions_error show ?thesis by blast
    next
      case (Inr Q')
      with Cons.prems i p have "load_states kvs Q' = Inl e" by simp
      then show ?thesis by (rule Cons.IH)
    qed
  next
    assume "(\<forall>d. v \<noteq> JObject d) \<and> items v = Inl AttributeError"
    with Cons.prems p show ?thesis by simp
  qed
qed

lemma loadable_Document:
  "loadable (Document v) \<longleftrightarrow> (\<exists>kvs. v = JObject kvs \<and> list_all actions_ok kvs)"
  by (cases v) (simp_all add: loadable_def actions_ok_def)

lemma load_q_table_missing: "fs p = None \<Longrightarrow> load_q_table fs p Q = Inr []"
  by (simp add: load_q_table_def)

lemma load_q_table_fails:
  "isl (load_q_table fs p Q) \<longleftrightarrow> (\<exists>f. fs p = Some f \<and> \<not> loadable f)"
proof (cases "fs p")
  case None
  then show ?thesis by (simp add: load_q_table_def)
next
  case (Some f)
  show ?thesis
  proof (cases f)
    case Undecodable
    with Some show ?thesis by (simp add: load_q_table_def json_load_def loadable_def)
  next
    case (Document v)
    from items_cases[of v] show ?thesis
    proof
      assume "\<exists>d. v = JObject d \<and> items v = Inr d"
      then obtain d where v: "v = JObject d" and i: "items v = Inr d" by blast
      have "isl (load_q_table fs p Q) = isl (load_states d Q)"
        by (simp add: load_q_table_def Some Document json_load_def i)
      then show ?thesis
        unfolding load_states_fails by (simp add: Some Document loadable_Document v)
    next
      assume a: "(\<forall>d. v \<noteq> JObject d) \<and> items v = Inl AttributeError"
      then have "\<not> loadable f" unfolding Document loadable_Document by blast
      with a show ?thesis by (simp add: load_q_table_def Some Document json_load_def)
    qed
  qed
qed

lemma load_q_table_error:
  assumes "load_q_table fs p Q = Inl e"
  shows "e = JSONDecodeError \<or> e = AttributeError \<or> e = ValueError"
proof (cases "fs p")
  case None
  with assms show ?thesis by (simp add: load_q_table_def)
next
  case (Some f)
  show ?thesis
  proof (cases f)
    case Undecodable
    with Some assms show ?thesis by (simp add: load_q_table_def json_load_def)
  next
    case (Document v)
    from items_cases[of v] show ?thesis
    proof
      assume "\<exists>d. v = JObject d \<and> items v = Inr d"
      then obtain d where i: "items v = Inr d" by blast
      from assms have "load_states d Q = Inl e"
        by (simp add: load_q_table_def Some Document json_load_def i)
      from load_states_error[OF this] show ?thesis by blast
    next
      assume "(\<forall>d. v \<noteq> JObject d) \<and> items v = Inl AttributeError"
      with assms show ?thesis by (simp add: load_q_table_def Some Document json_load_def)
    qed
  qed
qed

lemma format_actions_ok:
  assumes "list_all (\<lambda>(action_str, x). action_str \<in> set (map py_str [0..8])
              \<and> (case x of JNumber r \<Rightarrow> True | _ \<Rightarrow> False)) d"
  shows "list_all (\<lambda>(action_str, x). \<not> isl (py_int action_str)) d"
proof -
  have "\<not> isl (py_int k)" if "k \<in> set (map py_str [0..8])" for k
  proof -
    from that obtain a where "k = py_str a" by auto
    then show ?thesis by (simp add: py_int_py_str)
  qed
  with assms show ?thesis by (auto simp: list_all_iff)
qed

lemma well_formed_loadable: "well_formed_file f \<Longrightarrow> loadable f"
proof (cases f)
  case Undecodable
  assume "well_formed_file f"
  with Undecodable show ?thesis by (simp add: well_formed_file_def)
next
  case (Document v)
  assume w: "well_formed_file f"
  then have pf: "persisted_format v" by (simp add: well_formed_file_def Document)
  then obtain kvs where v: "v = JObject kvs" by (cases v) (simp_all add: persisted_format_def)
  have "actions_ok p" if "p \<in> set kvs" for p
  proof -
    obtain s x where p: "p = (s, x)" by (cases p)
    from pf that have "case x of JObject d \<Rightarrow>
                      list_all (\<lambda>(action_str, x).
                          action_str \<in> set (map py_str [0..8])
                          \<and> (case x of JNumber r \<Rightarrow> True | _ \<Rightarrow> False)) d
                  | _ \<Rightarrow> False"
      unfolding persisted_format_def v p by (auto simp: list_all_iff)
    then show ?thesis unfolding p actions_ok_def
      by (cases x) (simp_all add: format_actions_ok)
  qed
  then show ?thesis unfolding Document loadable_Document v by (simp add: list_all_iff)
qed

text \<open>
  Claim C5, as amended. A missing file is not an error and gives the empty table. A file that
  is there makes \<^const>\<open>load_q_table\<close> fail exactly when it is not \<^const>\<open>loadable\<close>: its text does
  not decode (JSONDecodeError), its top level or the entry of a state is not an object
  (AttributeError), or an action key is not an integer numeral (ValueError); no other error
  is possible and there is no CorruptDataError. Every file in the persisted format loads.
  The counterexample below is the claim as stated failing: files that are not in the persisted
  format (a value that is not a number; a state and an action outside the format) load without
  any failure.
\<close>

theorem load_q_table_failures:
  "(fs p = None \<longrightarrow> load_q_table fs p Q = Inr [])
   \<and> (isl (load_q_table fs p Q) \<longleftrightarrow> (\<exists>f. fs p = Some f \<and> \<not> loadable f))
   \<and> (load_q_table fs p Q = Inl e \<longrightarrow>
        e = JSONDecodeError \<or> e = AttributeError \<or> e = ValueError)
   \<and> (fs p = Some f \<and> well_formed_file f \<longrightarrow> \<not> isl (load_q_table fs p Q))"
proof -
  have "\<not> isl (load_q_table fs p Q)" if "fs p = Some f \<and> well_formed_file f"
    unfolding load_q_table_fails using that well_formed_loadable by auto
  then show ?thesis
    using load_q_table_missing[of fs p Q] load_q_table_fails[of fs p Q]
      load_q_table_error[of fs p Q e] by blast
qed

theorem load_q_table_accepts_malformed_counterexample:
  "\<not> well_formed_file (Document (JObject [(''         '', JObject [(''4'', JString ''high'')])]))
   \<and> load_q_table
        [''q_table.json'' \<mapsto> Document (JObject [(''         '', JObject [(''4'', JString ''high'')])])]
        ''q_table.json'' []
      = Inr [((''         '', 4), JString ''high'')]
   \<and> \<not> well_formed_file (Document (JObject [(''board'', JObject [('' +4_2 '', JNumber 1)])]))
   \<and> load_q_table
        [''q_table.json'' \<mapsto> Document (JObject [(''board'', JObject [('' +4_2 '', JNumber 1)])])]
        ''q_table.json'' []
      = Inr [((''board'', 42), JNumber 1)]"
  by (simp add: well_formed_file_def persisted_format_def load_q_table_def json_load_def
        items_def py_int_def strip_def is_space_def parse_digits_def is_digit_def digit_value_def)

theorem load_q_table_failures_witness:
  "load_q_table Map.empty ''q_table.json'' [] = Inr []
   \<and> isl (load_q_table [''q_table.json'' \<mapsto> Undecodable] ''q_table.json'' [])
   \<and> isl (load_q_table [''q_table.json'' \<mapsto> Document (JArray [])] ''q_table.json'' [])
   \<and> isl (load_q_table [''q_table.json'' \<mapsto> Document (JObject [(''         '', JObject [(''x'', JNumber 1)])])]
            ''q_table.json'' [])
   \<and> \<not> isl (load_q_table
               [''q_table.json'' \<mapsto> Document (JObject [(''         '', JObject [(''4'', JNumber 1)])])]
               ''q_table.json'' [])"
proof -
  let ?p = "''q_table.json''"
  let ?good = "Document (JObject [(''         '', JObject [(''4'', JNumber 1)])])"
  let ?bad = "Document (JObject [(''         '', JObject [(''x'', JNumber 1)])])"
  have a: "load_q_table Map.empty ?p [] = Inr []"
    using load_q_table_failures[of Map.empty ?p "[]" ValueError Undecodable] by simp
  have nl: "\<not> loadable Undecodable" "\<not> loadable (Document (JArray []))" "\<not> loadable ?bad"
    by (simp_all add: loadable_def py_int_def strip_def is_space_def parse_digits_def is_digit_def)
  have b: "isl (load_q_table [?p \<mapsto> Undecodable] ?p [])"
    using load_q_table_failures[of "[?p \<mapsto> Undecodable]" ?p "[]" ValueError Undecodable] nl(1)
    by simp
  have c: "isl (load_q_table [?p \<mapsto> Document (JArray [])] ?p [])"
    using load_q_table_failures[of "[?p \<mapsto> Document (JArray [])]" ?p "[]" ValueError Undecodable] nl(2)
    by simp
  have d: "isl (load_q_table [?p \<mapsto> ?bad] ?p [])"
    using load_q_table_failures[of "[?p \<mapsto> ?bad]" ?p "[]" ValueError Undecodable] nl(3)
    by simp
  have wf: "well_formed_file ?good"
    by (simp add: well_formed_file_def persisted_format_def py_str_small)
  have e: "\<not> isl (load_q_table [?p \<mapsto> ?good] ?p [])"
    using load_q_table_failures[of "[?p \<mapsto> ?good]" ?p "[]" ValueError ?good,
        THEN conjunct2, THEN conjunct2, THEN conjunct2] wf by simp
  from a b c d e show ?thesis by blast
qed

lemma save_entry_eq:
  "save_entry q_data ((s, a), v) =
     AList.map_entry s (AList.update (py_str a) v)
       (if map_of q_data s = None then AList.update s [] q_data else q_data)"
  by (simp add: save_entry_def Let_def)

lemma map_of_save_entry:
  "map_of (save_entry q_data ((s, a), v))
     = (map_of q_data)(s \<mapsto> AList.update (py_str a) v
                            (case map_of q_data s of None \<Rightarrow> [] | Some d \<Rightarrow> d))"
  unfolding save_entry_eq
  by (cases "map_of q_data s") (simp_all add: map_of_map_entry update_conv' fun_eq_iff)

lemma lookup2_save_entry:
  "lookup2 (save_entry q_data ((s, a), v)) = (lookup2 q_data)((s, py_str a) \<mapsto> v)"
proof
  fix x :: "string \<times> string"
  obtain s' k where x: "x = (s', k)" by (cases x)
  show "lookup2 (save_entry q_data ((s, a), v)) x = ((lookup2 q_data)((s, py_str a) \<mapsto> v)) x"
    unfolding x lookup2_def map_of_save_entry
    by (cases "map_of q_data s") (simp_all add: update_conv')
qed

lemma nested_ok_save_entry:
  assumes "nested_ok q_data"
  shows "nested_ok (save_entry q_data ((s, a), v))"
proof -
  let ?old = "case map_of q_data s of None \<Rightarrow> [] | Some d \<Rightarrow> d"
  have d1: "distinct (map fst (save_entry q_data ((s, a), v)))"
    unfolding save_entry_eq using assms
    by (auto simp: nested_ok_def intro!: distinct_map_entry distinct_update)
  have old: "distinct (map fst ?old) \<and> fst ` set ?old \<subseteq> range py_str"
    using assms by (cases "map_of q_data s") (simp_all add: nested_ok_def)
  have new: "distinct (map fst (AList.update (py_str a) v ?old))
             \<and> fst ` set (AList.update (py_str a) v ?old) \<subseteq> range py_str"
    using old by (simp add: distinct_update dom_update)
  have "distinct (map fst d) \<and> fst ` set d \<subseteq> range py_str"
    if "map_of (save_entry q_data ((s, a), v)) s' = Some d" for s' d
  proof (cases "s' = s")
    case True
    with that have "d = AList.update (py_str a) v ?old" unfolding map_of_save_entry by simp
    with new show ?thesis by simp
  next
    case False
    with that have "map_of q_data s' = Some d" unfolding map_of_save_entry by simp
    with assms show ?thesis unfolding nested_ok_def by blast
  qed
  with d1 show ?thesis unfolding nested_ok_def by blast
qed

lemma foldl_save_entry:
  assumes "nested_ok q_data"
  shows "nested_ok (foldl save_entry q_data Q)
       \<and> (\<forall>s a. lookup2 (foldl save_entry q_data Q) (s, py_str a)
                  = (case map_of (rev Q) (s, a) of
                       Some v \<Rightarrow> Some v
                     | None \<Rightarrow> lookup2 q_data (s, py_str a)))"
  using assms
proof (induction Q arbitrary: q_data)
  case Nil
  then show ?case by simp
next
  case (Cons e Q)
  obtain s0 a0 v0 where e: "e = ((s0, a0), v0)" by (cases e) auto
  let ?q1 = "save_entry q_data e"
  have ok1: "nested_ok ?q1" unfolding e using Cons.prems by (rule nested_ok_save_entry)
  note IH = Cons.IH[OF ok1]
  have "lookup2 (foldl save_entry ?q1 Q) (s, py_str a)
          = (case map_of (rev (e # Q)) (s, a) of
               Some v \<Rightarrow> Some v
             | None \<Rightarrow> lookup2 q_data (s, py_str a))" for s a
  proof -
    have "lookup2 (foldl save_entry ?q1 Q) (s, py_str a)
            = (case map_of (rev Q) (s, a) of
                 Some v \<Rightarrow> Some v
               | None \<Rightarrow> lookup2 ?q1 (s, py_str a))"
      using IH by blast
    also have "lookup2 ?q1 (s, py_str a)
                 = (if (s, a) = (s0, a0) then Some v0 else lookup2 q_data (s, py_str a))"
      unfolding e lookup2_save_entry using py_str_inj[of a a0] by auto
    finally show ?thesis
      by (cases "map_of (rev Q) (s, a)") (simp_all add: e map_add_def)
  qed
  with IH show ?case by simp
qed

lemma map_of_rev_distinct: "distinct (map fst xs) \<Longrightarrow> map_of (rev xs) = map_of xs"
proof (induction xs)
  case Nil
  show ?case by simp
next
  case (Cons p xs)
  obtain k v where p: "p = (k, v)" by (cases p)
  from Cons.prems p have nk: "map_of xs k = None" by (simp add: map_of_eq_None_iff)
  from Cons have IH: "map_of (rev xs) = map_of xs" by simp
  show ?case
  proof
    fix x
    show "map_of (rev (p # xs)) x = map_of (p # xs) x"
      using nk by (cases "x = k") (simp_all add: p IH map_add_def split: option.splits)
  qed
qed

lemma load_actions_str:
  assumes "fst ` set d \<subseteq> range py_str"
  shows "\<exists>Q'. load_actions s d Q = Inr Q'
          \<and> (distinct (map fst Q) \<longrightarrow> distinct (map fst Q'))
          \<and> (\<forall>s' a. map_of Q' (s', a)
                = (if s' = s \<and> map_of (rev d) (py_str a) \<noteq> None
                   then map_of (rev d) (py_str a) else map_of Q (s', a)))"
  using assms
proof (induction d arbitrary: Q)
  case Nil
  show ?case by simp
next
  case (Cons p d)
  obtain k v where p: "p = (k, v)" by (cases p)
  from Cons.prems p obtain a0 where k: "k = py_str a0" by auto
  from Cons.prems have sub: "fst ` set d \<subseteq> range py_str" by simp
  let ?Q1 = "AList.update (s, a0) v Q"
  from Cons.IH[OF sub, of ?Q1] obtain Q' where
    l: "load_actions s d ?Q1 = Inr Q'"
    and dist: "distinct (map fst ?Q1) \<longrightarrow> distinct (map fst Q')"
    and m: "\<forall>s' a. map_of Q' (s', a)
                = (if s' = s \<and> map_of (rev d) (py_str a) \<noteq> None
                   then map_of (rev d) (py_str a) else map_of ?Q1 (s', a))" by blast
  have l': "load_actions s (p # d) Q = Inr Q'"
    by (simp add: p k py_int_py_str l)
  have dist': "distinct (map fst Q) \<longrightarrow> distinct (map fst Q')"
    using dist by (simp add: distinct_update)
  have "map_of Q' (s', a)
          = (if s' = s \<and> map_of (rev (p # d)) (py_str a) \<noteq> None
             then map_of (rev (p # d)) (py_str a) else map_of Q (s', a))" for s' a
  proof -
    have q1: "map_of ?Q1 (s', a) = (if s' = s \<and> a = a0 then Some v else map_of Q (s', a))"
      by (simp add: update_conv')
    have r: "map_of (rev (p # d)) (py_str a)
               = (case map_of (rev d) (py_str a) of
                    Some y \<Rightarrow> Some y
                  | None \<Rightarrow> if a = a0 then Some v else None)"
      using py_str_inj[of a a0]
      by (cases "map_of (rev d) (py_str a)") (auto simp: p k map_add_def)
    show ?thesis
      unfolding r using m q1 by (cases "map_of (rev d) (py_str a)") auto
  qed
  with l' dist' show ?case by blast
qed

lemma nested_ok_Cons:
  assumes "nested_ok ((s0, d0) # rest)"
  shows "nested_ok rest" "map_of rest s0 = None" "distinct (map fst d0)"
    "fst ` set d0 \<subseteq> range py_str"
proof -
  from assms have d: "distinct (map fst ((s0, d0) # rest))"
    and inner: "\<And>s d. map_of ((s0, d0) # rest) s = Some d \<Longrightarrow>
                   distinct (map fst d) \<and> fst ` set d \<subseteq> range py_str"
    unfolding nested_ok_def by blast+
  from d show none: "map_of rest s0 = None" by (simp add: map_of_eq_None_iff)
  from inner[of s0 d0] show "distinct (map fst d0)" "fst ` set d0 \<subseteq> range py_str" by simp_all
  have "distinct (map fst d) \<and> fst ` set d \<subseteq> range py_str" if "map_of rest s = Some d" for s d
  proof -
    from that none have "s \<noteq> s0" by auto
    with that have "map_of ((s0, d0) # rest) s = Some d" by simp
    then show ?thesis by (rule inner)
  qed
  with d show "nested_ok rest" unfolding nested_ok_def by simp
qed

lemma load_states_nested:
  assumes "nested_ok q_data"
  shows "\<exists>Q'. load_states (map (\<lambda>(state, d). (state, JObject d)) q_data) Q = Inr Q'
          \<and> (distinct (map fst Q) \<longrightarrow> distinct (map fst Q'))
          \<and> (\<forall>s a. map_of Q' (s, a)
                = (case lookup2 q_data (s, py_str a) of
                     Some v \<Rightarrow> Some v
                   | None \<Rightarrow> map_of Q (s, a)))"
  using assms
proof (induction q_data arbitrary: Q)
  case Nil
  show ?case by (simp add: lookup2_def)
next
  case (Cons p rest)
  obtain s0 d0 where p: "p = (s0, d0)" by (cases p)
  note ok = nested_ok_Cons[OF Cons.prems[unfolded p]]
  from load_actions_str[OF ok(4), of s0 Q] obtain Q1 where
    l1: "load_actions s0 d0 Q = Inr Q1"
    and dist1: "distinct (map fst Q) \<longrightarrow> distinct (map fst Q1)"
    and m1: "\<forall>s' a. map_of Q1 (s', a)
                = (if s' = s0 \<and> map_of (rev d0) (py_str a) \<noteq> None
                   then map_of (rev d0) (py_str a) else map_of Q (s', a))" by blast
  from Cons.IH[OF ok(1), of Q1] obtain Q' where
    l: "load_states (map (\<lambda>(state, d). (state, JObject d)) rest) Q1 = Inr Q'"
    and dist: "distinct (map fst Q1) \<longrightarrow> distinct (map fst Q')"
    and m: "\<forall>s a. map_of Q' (s, a)
                = (case lookup2 rest (s, py_str a) of
                     Some v \<Rightarrow> Some v
                   | None \<Rightarrow> map_of Q1 (s, a))" by blast
  have l': "load_states (map (\<lambda>(state, d). (state, JObject d)) (p # rest)) Q = Inr Q'"
    by (simp add: p items_def l1 l)
  have rd: "map_of (rev d0) = map_of d0" using ok(3) by (rule map_of_rev_distinct)
  have "map_of Q' (s, a)
          = (case lookup2 (p # rest) (s, py_str a) of
               Some v \<Rightarrow> Some v
             | None \<Rightarrow> map_of Q (s, a))" for s a
  proof (cases "s = s0")
    case True
    have "lookup2 rest (s0, py_str a) = None" using ok(2) by (simp add: lookup2_def)
    with m have "map_of Q' (s0, a) = map_of Q1 (s0, a)" by simp
    also have "\<dots> = (if map_of d0 (py_str a) \<noteq> None then map_of d0 (py_str a)
                       else map_of Q (s0, a))"
      using m1 unfolding rd by simp
    finally show ?thesis
      unfolding True by (cases "map_of d0 (py_str a)") (simp_all add: lookup2_def p)
  next
    case False
    then have "lookup2 (p # rest) (s, py_str a) = lookup2 rest (s, py_str a)"
      by (simp add: lookup2_def p)
    moreover from False m1 have "map_of Q1 (s, a) = map_of Q (s, a)" by simp
    ultimately show ?thesis using m
      by (cases "lookup2 rest (s, py_str a)") simp_all
  qed
  with l' dist dist1 show ?case by blast
qed

lemma save_load_general:
  fixes Q :: "json q_table"
  assumes "distinct (map fst Q)"
  shows "\<exists>Q'. load_q_table (save_q_table Q fs p) p [] = Inr Q'
           \<and> distinct (map fst Q') \<and> map_of Q' = map_of Q"
proof -
  let ?d = "foldl save_entry [] Q"
  have ok0: "nested_ok []" by (simp add: nested_ok_def)
  from foldl_save_entry[OF ok0, of Q] have ok: "nested_ok ?d"
    and lk: "\<And>s a. lookup2 ?d (s, py_str a) = map_of (rev Q) (s, a)"
    by (auto simp: lookup2_def split: option.splits)
  from load_states_nested[OF ok, of "[]"] obtain Q' where
    l: "load_states (map (\<lambda>(state, d). (state, JObject d)) ?d) [] = Inr Q'"
    and dist0: "distinct (map fst ([] :: json q_table)) \<longrightarrow> distinct (map fst Q')"
    and m0: "\<forall>s a. map_of Q' (s, a)
                = (case lookup2 ?d (s, py_str a) of
                     Some v \<Rightarrow> Some v
                   | None \<Rightarrow> map_of ([] :: json q_table) (s, a))"
    by blast
  from dist0 have dist: "distinct (map fst Q')" by simp
  from m0 have m: "\<forall>s a. map_of Q' (s, a)
                = (case lookup2 ?d (s, py_str a) of Some v \<Rightarrow> Some v | None \<Rightarrow> None)"
    by (simp split: option.splits)
  have load: "load_q_table (save_q_table Q fs p) p [] = Inr Q'"
    by (simp add: load_q_table_def save_q_table_def json_dump_def json_load_def items_def l)
  have "map_of Q' x = map_of Q x" for x
  proof -
    obtain s a where x: "x = (s, a)" by (cases x)
    have "map_of Q' (s, a) = map_of (rev Q) (s, a)"
      using m lk[of s a] by (cases "map_of (rev Q) (s, a)") simp_all
    then show ?thesis unfolding x map_of_rev_distinct[OF assms] .
  qed
  then have "map_of Q' = map_of Q" by (rule ext)
  with load dist show ?thesis by blast
qed

lemma map_of_numbers:
  "map_of (map (\<lambda>(k, x). (k, JNumber x)) Q) k = map_option JNumber (map_of Q k)"
  by (induction Q) auto

text \<open>
  Claim C6. Saving a table of numbers and loading the file into an empty table succeeds and
  gives a table with the same keys and the same numbers at them. It holds for every
  dictionary (an association list with distinct keys), whatever its states and actions; the
  tables of the claim, with states of nine characters and actions from 0 to 8, are among them.
\<close>

theorem save_load_round_trip:
  fixes Q :: "real q_table"
  assumes "distinct (map fst Q)"
  shows "\<exists>Q'. load_q_table (save_q_table (map (\<lambda>(k, x). (k, JNumber x)) Q) fs p) p [] = Inr Q'
           \<and> distinct (map fst Q')
           \<and> (\<forall>state action.
                 map_of Q' (state, action) = map_option JNumber (map_of Q (state, action)))"
proof -
  let ?J = "map (\<lambda>(k, x). (k, JNumber x)) Q"
  have mf: "map fst ?J = map fst Q" by (induction Q) auto
  have "distinct (map fst ?J)" unfolding mf by (rule assms)
  from save_load_general[OF this, of fs p] obtain Q' where
    "load_q_table (save_q_table ?J fs p) p [] = Inr Q'" "distinct (map fst Q')"
    "map_of Q' = map_of ?J" by blast
  then show ?thesis by (auto simp: map_of_numbers)
qed

lemma round_trip_example:
  "load_q_table
     (save_q_table [((''         '', 4), JNumber 0.9), ((''X        '', 1), JNumber (- 0.5)),
                    ((''         '', 0), JNumber 0.25)] Map.empty ''q_table.json'')
     ''q_table.json'' []
   = Inr [((''         '', 4), JNumber 0.9), ((''         '', 0), JNumber 0.25),
          ((''X        '', 1), JNumber (- 0.5))]"
  by (simp add: load_q_table_def save_q_table_def json_dump_def json_load_def items_def
        save_entry_def py_str_def digits.simps digit_char_def char_of_def bit_0
        py_int_def strip_def is_space_def parse_digits_def is_digit_def digit_value_def)

theorem save_load_round_trip_witness:
  "distinct (map fst [((''         '', 4::int), 0.9::real), ((''X        '', 1), - 0.5),
                      ((''         '', 0), 0.25)])
   \<and> (\<exists>Q'. load_q_table
             (save_q_table
                (map (\<lambda>(k, x). (k, JNumber x))
                   [((''         '', 4), 0.9), ((''X        '', 1), - 0.5), ((''         '', 0), 0.25)])
                Map.empty ''q_table.json'')
             ''q_table.json'' [] = Inr Q'
          \<and> map_of Q' (''         '', 4) = Some (JNumber 0.9)
          \<and> map_of Q' (''X        '', 1) = Some (JNumber (- 0.5))
          \<and> map_of Q' (''         '', 1) = None)"
proof -
  let ?Q = "[((''         '', 4::int), 0.9::real), ((''X        '', 1), - 0.5), ((''         '', 0), 0.25)]"
  have d: "distinct (map fst ?Q)" by simp
  from save_load_round_trip[OF d, of Map.empty "''q_table.json''"] obtain Q' where
    l: "load_q_table (save_q_table (map (\<lambda>(k, x). (k, JNumber x)) ?Q) Map.empty ''q_table.json'')
          ''q_table.json'' [] = Inr Q'"
    and m: "\<forall>state action. map_of Q' (state, action) = map_option JNumber (map_of ?Q (state, action))"
    by blast
  from m have "map_of Q' (''         '', 4) = Some (JNumber 0.9)"
    "map_of Q' (''X        '', 1) = Some (JNumber (- 0.5))"
    "map_of Q' (''         '', 1) = None" by simp_all
  with l d show ?thesis by blast
qed

end
